theory Spec2Isabelle
  imports Main
begin

section \<open>Raw storage, element types and outcomes\<close>

text \<open>
  The header \<^verbatim>\<open>vector.h\<close> defines \<^verbatim>\<open>RawMemory<T>\<close>, an owner of an
  uninitialised buffer, and \<^verbatim>\<open>Vector<T>\<close>, a dynamic array built on it.  The model
  keeps the buffers in an explicit heap: an address names a block of slots, a slot is
  either raw memory or holds a live element.  Address \<open>0\<close> is the null pointer.
  \<^verbatim>\<open>size_t\<close> is modelled by \<open>nat\<close>: a count never exceeds the number of slots of an
  allocated block.  \<^verbatim>\<open>operator new\<close> is assumed to succeed.
\<close>

type_synonym addr = nat

definition nullptr :: addr where
  "nullptr = 0"

text \<open>A pointer to an element: the block's address and the index of the slot.\<close>

type_synonym ptr = "addr \<times> nat"

datatype 'a slot = Raw | Live 'a

record 'a block =
  freed :: bool
  slots :: "'a slot list"

text \<open>
  What an exception thrown by an element operation is: derived from
  \<^verbatim>\<open>std::exception\<close> (the only kind the handlers of the header catch) or not.
\<close>

datatype exn = StdException | OtherException

text \<open>
  The element type \<^verbatim>\<open>T\<close>.  \<open>nothrow_move\<close> and \<open>copy_constructible\<close> are the two
  type traits the header branches on, \<open>trivially_destructible\<close> says whether running
  the destructor is a no-op, \<open>moved_from\<close> is the value a move leaves in its source,
  \<open>value_init\<close> the value of \<^verbatim>\<open>T()\<close>.  \<open>throw_plan k\<close> is what the \<open>k\<close>-th element
  operation that may throw does (counted from \<open>0\<close> over the whole run): \<open>None\<close> when
  it succeeds, \<open>Some e\<close> when it throws \<open>e\<close>.
\<close>

record 'a elem_type =
  nothrow_move :: bool
  copy_constructible :: bool
  trivially_destructible :: bool
  moved_from :: "'a \<Rightarrow> 'a"
  value_init :: 'a
  throw_plan :: "nat \<Rightarrow> exn option"

section \<open>RawMemory\<close>

text \<open>
  The data members \<^verbatim>\<open>buffer_\<close>, \<^verbatim>\<open>capacity_\<close>, \<^verbatim>\<open>data_\<close> and \<^verbatim>\<open>size_\<close> of the
  header are the fields \<open>buffer_m\<close>, \<open>capacity_m\<close>, \<open>data_m\<close> and \<open>size_m\<close> here (a
  name cannot end in an underscore).
\<close>

record RawMemory =
  buffer_m :: addr
  capacity_m :: nat

text \<open>\<^verbatim>\<open>RawMemory() = default\<close>: the default member initialisers.\<close>

definition RawMemory_default :: RawMemory where
  "RawMemory_default = \<lparr>buffer_m = nullptr, capacity_m = 0\<rparr>"

definition GetAddress :: "RawMemory \<Rightarrow> addr" where
  "GetAddress m = buffer_m m"

definition Capacity :: "RawMemory \<Rightarrow> nat" where
  "Capacity m = capacity_m m"

text \<open>The two comparison operators on \<^verbatim>\<open>RawMemory\<close> (lines 104 to 114).\<close>

definition RawMemory_eq :: "RawMemory \<Rightarrow> RawMemory \<Rightarrow> bool" where
  "RawMemory_eq lhs rhs =
     (Capacity lhs = Capacity rhs \<and> GetAddress lhs = GetAddress rhs)"

definition RawMemory_ne :: "RawMemory \<Rightarrow> RawMemory \<Rightarrow> bool" where
  "RawMemory_ne lhs rhs =
     (Capacity lhs \<noteq> Capacity rhs \<and> GetAddress lhs \<noteq> GetAddress rhs)"

section \<open>Vector: the object and its comparison operators\<close>

record Vector =
  data_m :: RawMemory
  size_m :: nat

definition Vector_default :: Vector where
  "Vector_default = \<lparr>data_m = RawMemory_default, size_m = 0\<rparr>"

definition Size :: "Vector \<Rightarrow> nat" where
  "Size v = size_m v"

definition Data :: "Vector \<Rightarrow> RawMemory" where
  "Data v = data_m v"

definition Vector_eq :: "Vector \<Rightarrow> Vector \<Rightarrow> bool" where
  "Vector_eq lhs rhs = (RawMemory_eq (Data lhs) (Data rhs) \<and> Size lhs = Size rhs)"

definition Vector_ne :: "Vector \<Rightarrow> Vector \<Rightarrow> bool" where
  "Vector_ne lhs rhs = (RawMemory_ne (Data lhs) (Data rhs) \<and> Size lhs \<noteq> Size rhs)"

section \<open>The world: heap, vector objects, count of element operations\<close>

text \<open>
  \<open>vecs\<close> maps the identity of a \<^verbatim>\<open>Vector\<close> object to its members, so that
  \<^verbatim>\<open>this != &rhs\<close> is a comparison of identities.  \<open>ops\<close> counts the element operations
  that may throw and have run so far; it indexes \<open>throw_plan\<close>.
\<close>

record 'a world =
  heap :: "addr \<Rightarrow> 'a block option"
  next_addr :: addr
  vecs :: "nat \<Rightarrow> Vector"
  ops :: nat

text \<open>
  A call returns normally with a result, leaves by an exception, or has undefined
  behaviour (a failed \<^verbatim>\<open>assert\<close>, an access outside a block or to raw memory, a
  destructor run on a slot that holds no object, a bad \<^verbatim>\<open>operator delete\<close>).
\<close>

datatype ('r, 's) outcome = Ok 'r 's | Throw exn 's | UB

definition and_then ::
  "('r, 's) outcome \<Rightarrow> ('r \<Rightarrow> 's \<Rightarrow> ('q, 's) outcome) \<Rightarrow> ('q, 's) outcome" where
  "and_then m k = (case m of Ok r s \<Rightarrow> k r s | Throw e s \<Rightarrow> Throw e s | UB \<Rightarrow> UB)"

text \<open>
  \<^verbatim>\<open>try { m } catch (const std::exception&) { h; throw; }\<close>: the handler runs only
  for an exception derived from \<^verbatim>\<open>std::exception\<close>, and rethrows.
\<close>

definition catch_std_rethrow ::
  "('r, 's) outcome \<Rightarrow> ('s \<Rightarrow> (unit, 's) outcome) \<Rightarrow> ('r, 's) outcome" where
  "catch_std_rethrow m h =
     (case m of
        Ok r s \<Rightarrow> Ok r s
      | Throw e s \<Rightarrow>
          (case e of
             StdException \<Rightarrow> and_then (h s) (\<lambda>_ s1. Throw StdException s1)
           | OtherException \<Rightarrow> Throw OtherException s)
      | UB \<Rightarrow> UB)"

subsection \<open>Pointers\<close>

definition ptr_add :: "ptr \<Rightarrow> nat \<Rightarrow> ptr" where
  "ptr_add p k = (fst p, snd p + k)"

text \<open>\<open>p - k\<close>; a pointer before the start of its block is undefined (\<open>None\<close>).\<close>

definition ptr_sub :: "ptr \<Rightarrow> nat \<Rightarrow> ptr option" where
  "ptr_sub p k = (if k \<le> snd p then Some (fst p, snd p - k) else None)"

text \<open>
  \<open>p - q\<close> as a \<^verbatim>\<open>size_t\<close>: defined for two pointers into the same block with
  \<open>q\<close> not after \<open>p\<close> (a negative difference would wrap to a huge count).
\<close>

definition ptr_diff :: "ptr \<Rightarrow> ptr \<Rightarrow> nat option" where
  "ptr_diff p q = (if fst p = fst q \<and> snd q \<le> snd p then Some (snd p - snd q) else None)"

subsection \<open>Slots\<close>

text \<open>The slot a pointer designates, when it points into a block that is not freed.\<close>

definition slot_at :: "'a world \<Rightarrow> ptr \<Rightarrow> 'a slot option" where
  "slot_at W p =
     (case heap W (fst p) of
        None \<Rightarrow> None
      | Some b \<Rightarrow>
          if freed b \<or> length (slots b) \<le> snd p then None else Some (slots b ! snd p))"

definition put_slot :: "ptr \<Rightarrow> 'a slot \<Rightarrow> 'a world \<Rightarrow> 'a world" where
  "put_slot p s W =
     (case heap W (fst p) of
        None \<Rightarrow> W
      | Some b \<Rightarrow> W\<lparr>heap := (heap W)(fst p \<mapsto> b\<lparr>slots := (slots b)[snd p := s]\<rparr>)\<rparr>)"

definition tick :: "'a world \<Rightarrow> 'a world" where
  "tick W = W\<lparr>ops := Suc (ops W)\<rparr>"

subsection \<open>Operations of the element type\<close>

text \<open>
  \<^verbatim>\<open>T obj(args...)\<close> for a local object: \<open>v\<close> is the value the constructor
  builds from the arguments.
\<close>

definition construct_local :: "'a elem_type \<Rightarrow> 'a \<Rightarrow> 'a world \<Rightarrow> ('a, 'a world) outcome" where
  "construct_local T v W =
     (case throw_plan T (ops W) of
        Some e \<Rightarrow> Throw e (tick W)
      | None \<Rightarrow> Ok v (tick W))"

text \<open>\<^verbatim>\<open>new (p) T(args...)\<close>.\<close>

definition construct_at ::
  "'a elem_type \<Rightarrow> ptr \<Rightarrow> 'a \<Rightarrow> 'a world \<Rightarrow> (unit, 'a world) outcome" where
  "construct_at T p v W =
     (case slot_at W p of
        None \<Rightarrow> UB
      | Some _ \<Rightarrow>
          (case throw_plan T (ops W) of
             Some e \<Rightarrow> Throw e (tick W)
           | None \<Rightarrow> Ok () (put_slot p (Live v) (tick W))))"

text \<open>\<^verbatim>\<open>new (dst) T(*src)\<close>: the copy constructor.\<close>

definition copy_construct_at ::
  "'a elem_type \<Rightarrow> ptr \<Rightarrow> ptr \<Rightarrow> 'a world \<Rightarrow> (unit, 'a world) outcome" where
  "copy_construct_at T dst src W =
     (case slot_at W src of
        Some (Live v) \<Rightarrow> construct_at T dst v W
      | _ \<Rightarrow> UB)"

text \<open>
  \<^verbatim>\<open>new (dst) T(std::move(*src))\<close>: the move constructor.  It cannot throw when
  \<^verbatim>\<open>T\<close> is nothrow move constructible; the source is left in its moved-from state.
\<close>

definition move_construct_at ::
  "'a elem_type \<Rightarrow> ptr \<Rightarrow> ptr \<Rightarrow> 'a world \<Rightarrow> (unit, 'a world) outcome" where
  "move_construct_at T dst src W =
     (case slot_at W src of
        Some (Live v) \<Rightarrow>
          (case slot_at W dst of
             None \<Rightarrow> UB
           | Some _ \<Rightarrow>
               if nothrow_move T
               then Ok () (put_slot src (Live (moved_from T v)) (put_slot dst (Live v) W))
               else
                 (case throw_plan T (ops W) of
                    Some e \<Rightarrow> Throw e (tick W)
                  | None \<Rightarrow>
                      Ok () (put_slot src (Live (moved_from T v))
                               (put_slot dst (Live v) (tick W)))))
      | _ \<Rightarrow> UB)"

text \<open>\<^verbatim>\<open>*dst = *src\<close>: copy assignment between two live elements.\<close>

definition copy_assign_at ::
  "'a elem_type \<Rightarrow> ptr \<Rightarrow> ptr \<Rightarrow> 'a world \<Rightarrow> (unit, 'a world) outcome" where
  "copy_assign_at T dst src W =
     (case slot_at W src of
        Some (Live v) \<Rightarrow>
          (case slot_at W dst of
             Some (Live _) \<Rightarrow>
               (case throw_plan T (ops W) of
                  Some e \<Rightarrow> Throw e (tick W)
                | None \<Rightarrow> Ok () (put_slot dst (Live v) (tick W)))
           | _ \<Rightarrow> UB)
      | _ \<Rightarrow> UB)"

text \<open>\<^verbatim>\<open>*dst = std::move(*src)\<close>: move assignment between two live elements.\<close>

definition move_assign_at ::
  "'a elem_type \<Rightarrow> ptr \<Rightarrow> ptr \<Rightarrow> 'a world \<Rightarrow> (unit, 'a world) outcome" where
  "move_assign_at T dst src W =
     (case slot_at W src of
        Some (Live v) \<Rightarrow>
          (case slot_at W dst of
             Some (Live _) \<Rightarrow>
               (case throw_plan T (ops W) of
                  Some e \<Rightarrow> Throw e (tick W)
                | None \<Rightarrow>
                    Ok () (put_slot src (Live (moved_from T v))
                             (put_slot dst (Live v) (tick W))))
           | _ \<Rightarrow> UB)
      | _ \<Rightarrow> UB)"

text \<open>\<^verbatim>\<open>*dst = std::move(obj)\<close> for a local object holding \<open>v\<close>.\<close>

definition move_assign_from_local ::
  "'a elem_type \<Rightarrow> ptr \<Rightarrow> 'a \<Rightarrow> 'a world \<Rightarrow> (unit, 'a world) outcome" where
  "move_assign_from_local T dst v W =
     (case slot_at W dst of
        Some (Live _) \<Rightarrow>
          (case throw_plan T (ops W) of
             Some e \<Rightarrow> Throw e (tick W)
           | None \<Rightarrow> Ok () (put_slot dst (Live v) (tick W)))
      | _ \<Rightarrow> UB)"

text \<open>
  \<^verbatim>\<open>std::destroy_at(p)\<close>.  On a slot that holds no object the destructor call is
  undefined, unless the destructor is trivial and the call compiles to nothing.
\<close>

definition destroy_at :: "'a elem_type \<Rightarrow> ptr \<Rightarrow> 'a world \<Rightarrow> (unit, 'a world) outcome" where
  "destroy_at T p W =
     (case slot_at W p of
        None \<Rightarrow> UB
      | Some Raw \<Rightarrow> if trivially_destructible T then Ok () W else UB
      | Some (Live _) \<Rightarrow> Ok () (put_slot p Raw W))"

subsection \<open>The algorithms of the standard library the header calls\<close>

fun destroy_n :: "'a elem_type \<Rightarrow> ptr \<Rightarrow> nat \<Rightarrow> 'a world \<Rightarrow> (unit, 'a world) outcome" where
  "destroy_n T p 0 W = Ok () W"
| "destroy_n T p (Suc n) W =
     and_then (destroy_at T p W) (\<lambda>_ W1. destroy_n T (ptr_add p 1) n W1)"

text \<open>
  \<^verbatim>\<open>std::uninitialized_copy_n\<close> and \<^verbatim>\<open>std::uninitialized_move_n\<close>: \<open>i\<close> elements are
  already constructed at \<open>d_first\<close>, \<open>k\<close> remain.  When a constructor throws, the
  elements constructed so far are destroyed and the exception leaves the call.
\<close>

fun uninitialized_copy_loop ::
  "'a elem_type \<Rightarrow> ptr \<Rightarrow> ptr \<Rightarrow> nat \<Rightarrow> nat \<Rightarrow> 'a world \<Rightarrow> (unit, 'a world) outcome" where
  "uninitialized_copy_loop T first d_first i 0 W = Ok () W"
| "uninitialized_copy_loop T first d_first i (Suc k) W =
     (case copy_construct_at T (ptr_add d_first i) (ptr_add first i) W of
        Ok _ W1 \<Rightarrow> uninitialized_copy_loop T first d_first (Suc i) k W1
      | Throw e W1 \<Rightarrow> and_then (destroy_n T d_first i W1) (\<lambda>_ W2. Throw e W2)
      | UB \<Rightarrow> UB)"

definition uninitialized_copy_n ::
  "'a elem_type \<Rightarrow> ptr \<Rightarrow> nat \<Rightarrow> ptr \<Rightarrow> 'a world \<Rightarrow> (unit, 'a world) outcome" where
  "uninitialized_copy_n T first n d_first W = uninitialized_copy_loop T first d_first 0 n W"

fun uninitialized_move_loop ::
  "'a elem_type \<Rightarrow> ptr \<Rightarrow> ptr \<Rightarrow> nat \<Rightarrow> nat \<Rightarrow> 'a world \<Rightarrow> (unit, 'a world) outcome" where
  "uninitialized_move_loop T first d_first i 0 W = Ok () W"
| "uninitialized_move_loop T first d_first i (Suc k) W =
     (case move_construct_at T (ptr_add d_first i) (ptr_add first i) W of
        Ok _ W1 \<Rightarrow> uninitialized_move_loop T first d_first (Suc i) k W1
      | Throw e W1 \<Rightarrow> and_then (destroy_n T d_first i W1) (\<lambda>_ W2. Throw e W2)
      | UB \<Rightarrow> UB)"

definition uninitialized_move_n ::
  "'a elem_type \<Rightarrow> ptr \<Rightarrow> nat \<Rightarrow> ptr \<Rightarrow> 'a world \<Rightarrow> (unit, 'a world) outcome" where
  "uninitialized_move_n T first n d_first W = uninitialized_move_loop T first d_first 0 n W"

fun uninitialized_value_construct_loop ::
  "'a elem_type \<Rightarrow> ptr \<Rightarrow> nat \<Rightarrow> nat \<Rightarrow> 'a world \<Rightarrow> (unit, 'a world) outcome" where
  "uninitialized_value_construct_loop T first i 0 W = Ok () W"
| "uninitialized_value_construct_loop T first i (Suc k) W =
     (case construct_at T (ptr_add first i) (value_init T) W of
        Ok _ W1 \<Rightarrow> uninitialized_value_construct_loop T first (Suc i) k W1
      | Throw e W1 \<Rightarrow> and_then (destroy_n T first i W1) (\<lambda>_ W2. Throw e W2)
      | UB \<Rightarrow> UB)"

definition uninitialized_value_construct_n ::
  "'a elem_type \<Rightarrow> ptr \<Rightarrow> nat \<Rightarrow> 'a world \<Rightarrow> (unit, 'a world) outcome" where
  "uninitialized_value_construct_n T first n W =
     uninitialized_value_construct_loop T first 0 n W"

text \<open>
  \<^verbatim>\<open>std::move(first, last, d_first)\<close>: move assignment element by element, front
  to back.
\<close>

fun move_loop ::
  "'a elem_type \<Rightarrow> ptr \<Rightarrow> ptr \<Rightarrow> nat \<Rightarrow> 'a world \<Rightarrow> (unit, 'a world) outcome" where
  "move_loop T first d_first 0 W = Ok () W"
| "move_loop T first d_first (Suc k) W =
     and_then (move_assign_at T d_first first W)
       (\<lambda>_ W1. move_loop T (ptr_add first 1) (ptr_add d_first 1) k W1)"

definition move_range ::
  "'a elem_type \<Rightarrow> ptr \<Rightarrow> ptr \<Rightarrow> ptr \<Rightarrow> 'a world \<Rightarrow> (unit, 'a world) outcome" where
  "move_range T first last_p d_first W =
     (case ptr_diff last_p first of
        None \<Rightarrow> UB
      | Some n \<Rightarrow> move_loop T first d_first n W)"

text \<open>\<^verbatim>\<open>std::move_backward(first, last, d_last)\<close>: the same, back to front.\<close>

fun move_backward_loop ::
  "'a elem_type \<Rightarrow> ptr \<Rightarrow> ptr \<Rightarrow> nat \<Rightarrow> 'a world \<Rightarrow> (unit, 'a world) outcome" where
  "move_backward_loop T last_p d_last 0 W = Ok () W"
| "move_backward_loop T last_p d_last (Suc k) W =
     (case ptr_sub last_p 1 of
        None \<Rightarrow> UB
      | Some s \<Rightarrow>
          (case ptr_sub d_last 1 of
             None \<Rightarrow> UB
           | Some d \<Rightarrow>
               and_then (move_assign_at T d s W) (\<lambda>_ W1. move_backward_loop T s d k W1)))"

definition move_backward ::
  "'a elem_type \<Rightarrow> ptr \<Rightarrow> ptr \<Rightarrow> ptr \<Rightarrow> 'a world \<Rightarrow> (unit, 'a world) outcome" where
  "move_backward T first last_p d_last W =
     (case ptr_diff last_p first of
        None \<Rightarrow> UB
      | Some n \<Rightarrow> move_backward_loop T last_p d_last n W)"

section \<open>RawMemory: allocation, access, ownership\<close>

text \<open>
  \<^verbatim>\<open>operator delete(p)\<close>: a no-op on the null pointer, the release of a block for
  the pointer its \<^verbatim>\<open>operator new\<close> returned, undefined for anything else.  A freed
  block stays in the heap, marked, with the slots it had when it was released.
\<close>

definition operator_delete :: "ptr \<Rightarrow> 'a world \<Rightarrow> (unit, 'a world) outcome" where
  "operator_delete p W =
     (if p = (nullptr, 0) then Ok () W
      else
        (case heap W (fst p) of
           None \<Rightarrow> UB
         | Some b \<Rightarrow>
             if freed b \<or> snd p \<noteq> 0 then UB
             else Ok () (W\<lparr>heap := (heap W)(fst p \<mapsto> b\<lparr>freed := True\<rparr>)\<rparr>)))"

definition Allocate :: "nat \<Rightarrow> 'a world \<Rightarrow> addr \<times> 'a world" where
  "Allocate n W =
     (if n \<noteq> 0
      then (next_addr W,
            W\<lparr>heap := (heap W)(next_addr W \<mapsto> \<lparr>freed = False, slots = replicate n Raw\<rparr>),
              next_addr := Suc (next_addr W)\<rparr>)
      else (nullptr, W))"

definition Deallocate :: "addr \<Rightarrow> 'a world \<Rightarrow> (unit, 'a world) outcome" where
  "Deallocate buf W = (if buf \<noteq> nullptr then operator_delete (buf, 0) W else Ok () W)"

text \<open>\<^verbatim>\<open>explicit RawMemory(size_t capacity)\<close> and \<^verbatim>\<open>~RawMemory()\<close>.\<close>

definition RawMemory_ctor :: "nat \<Rightarrow> 'a world \<Rightarrow> RawMemory \<times> 'a world" where
  "RawMemory_ctor capacity W =
     (let (buf, W1) = Allocate capacity W
      in (\<lparr>buffer_m = buf, capacity_m = capacity\<rparr>, W1))"

definition RawMemory_dtor :: "RawMemory \<Rightarrow> 'a world \<Rightarrow> (unit, 'a world) outcome" where
  "RawMemory_dtor m W = Deallocate (buffer_m m) W"

text \<open>
  \<^verbatim>\<open>operator+\<close> and \<^verbatim>\<open>operator[]\<close>, with their assertions: \<open>None\<close> when the
  assertion fails.
\<close>

definition RawMemory_plus :: "RawMemory \<Rightarrow> nat \<Rightarrow> ptr option" where
  "RawMemory_plus m offset = (if offset \<le> capacity_m m then Some (buffer_m m, offset) else None)"

definition RawMemory_index :: "RawMemory \<Rightarrow> nat \<Rightarrow> ptr option" where
  "RawMemory_index m index = (if index < capacity_m m then Some (buffer_m m, index) else None)"

definition RawMemory_Swap :: "RawMemory \<Rightarrow> RawMemory \<Rightarrow> RawMemory \<times> RawMemory" where
  "RawMemory_Swap this other =
     (this\<lparr>buffer_m := buffer_m other, capacity_m := capacity_m other\<rparr>,
      other\<lparr>buffer_m := buffer_m this, capacity_m := capacity_m this\<rparr>)"

text \<open>
  The move constructor (lines 21 to 29).  The object under construction starts from
  its default member initialisers; the result is the pair (new object, source).
\<close>

definition RawMemory_move_ctor :: "RawMemory \<Rightarrow> RawMemory \<times> RawMemory" where
  "RawMemory_move_ctor other =
     (let this = RawMemory_default
      in if RawMemory_ne this other
         then (this\<lparr>capacity_m := Capacity other, buffer_m := GetAddress other\<rparr>,
               other\<lparr>buffer_m := nullptr, capacity_m := 0\<rparr>)
         else (this, other))"

text \<open>
  Move assignment (lines 30 to 39), statement by statement on a store \<open>M\<close> of
  \<^verbatim>\<open>RawMemory\<close> objects, so that \<open>this\<close> and \<open>rhs\<close> may name the same object.
\<close>

definition RawMemory_move_assign ::
  "nat \<Rightarrow> nat \<Rightarrow> (nat \<Rightarrow> RawMemory) \<Rightarrow> (nat \<Rightarrow> RawMemory)" where
  "RawMemory_move_assign this rhs M =
     (if RawMemory_ne (M this) (M rhs)
      then
        (let M1 = M(this := (M this)\<lparr>capacity_m := Capacity (M rhs)\<rparr>);
             M2 = M1(this := (M1 this)\<lparr>buffer_m := GetAddress (M1 rhs)\<rparr>);
             M3 = M2(rhs := (M2 rhs)\<lparr>buffer_m := nullptr\<rparr>);
             M4 = M3(rhs := (M3 rhs)\<lparr>capacity_m := 0\<rparr>)
         in M4)
      else M)"

section \<open>Vector: constructors, assignment, destructor\<close>

definition Vector_begin :: "Vector \<Rightarrow> ptr" where
  "Vector_begin v = (GetAddress (data_m v), 0)"

definition Vector_end :: "Vector \<Rightarrow> ptr option" where
  "Vector_end v = RawMemory_plus (data_m v) (size_m v)"

text \<open>\<^verbatim>\<open>operator[]\<close> of \<^verbatim>\<open>Vector\<close>, with its assertion and that of \<^verbatim>\<open>RawMemory\<close>.\<close>

definition Vector_index :: "Vector \<Rightarrow> nat \<Rightarrow> ptr option" where
  "Vector_index v index = (if index < size_m v then RawMemory_index (data_m v) index else None)"

definition Vector_ctor_default :: "nat \<Rightarrow> 'a world \<Rightarrow> (unit, 'a world) outcome" where
  "Vector_ctor_default this W = Ok () (W\<lparr>vecs := (vecs W)(this := Vector_default)\<rparr>)"

text \<open>
  \<^verbatim>\<open>explicit Vector(size_t size)\<close>.  When an element constructor throws, the member
  \<^verbatim>\<open>data_\<close> is destroyed and no object comes to exist.
\<close>

definition Vector_ctor_size ::
  "'a elem_type \<Rightarrow> nat \<Rightarrow> nat \<Rightarrow> 'a world \<Rightarrow> (unit, 'a world) outcome" where
  "Vector_ctor_size T this n W =
     (let (d, W1) = RawMemory_ctor n W
      in case uninitialized_value_construct_n T (GetAddress d, 0) n W1 of
           Ok _ W2 \<Rightarrow> Ok () (W2\<lparr>vecs := (vecs W2)(this := \<lparr>data_m = d, size_m = n\<rparr>)\<rparr>)
         | Throw e W2 \<Rightarrow> and_then (RawMemory_dtor d W2) (\<lambda>_ W3. Throw e W3)
         | UB \<Rightarrow> UB)"

text \<open>
  \<^verbatim>\<open>explicit Vector(const Vector& other)\<close>, as a function that returns the members
  of the new object (used for the local \<^verbatim>\<open>temp\<close> of copy assignment), and as the
  constructor of the object \<open>this\<close>.
\<close>

definition Vector_copy_construct ::
  "'a elem_type \<Rightarrow> Vector \<Rightarrow> 'a world \<Rightarrow> (Vector, 'a world) outcome" where
  "Vector_copy_construct T other W =
     (let (d, W1) = RawMemory_ctor (Size other) W;
          n = Size other
      in case uninitialized_copy_n T (GetAddress (data_m other), 0) n (GetAddress d, 0) W1 of
           Ok _ W2 \<Rightarrow> Ok \<lparr>data_m = d, size_m = n\<rparr> W2
         | Throw e W2 \<Rightarrow> and_then (RawMemory_dtor d W2) (\<lambda>_ W3. Throw e W3)
         | UB \<Rightarrow> UB)"

definition Vector_ctor_copy ::
  "'a elem_type \<Rightarrow> nat \<Rightarrow> nat \<Rightarrow> 'a world \<Rightarrow> (unit, 'a world) outcome" where
  "Vector_ctor_copy T this other W =
     and_then (Vector_copy_construct T (vecs W other) W)
       (\<lambda>v W1. Ok () (W1\<lparr>vecs := (vecs W1)(this := v)\<rparr>))"

text \<open>\<^verbatim>\<open>Vector(Vector&& other)\<close> (lines 137 to 141).\<close>

definition Vector_ctor_move :: "nat \<Rightarrow> nat \<Rightarrow> 'a world \<Rightarrow> (unit, 'a world) outcome" where
  "Vector_ctor_move this other W =
     (let (d, od) = RawMemory_move_ctor (data_m (vecs W other));
          V1 = (vecs W)(other := (vecs W other)\<lparr>data_m := od\<rparr>);
          V2 = V1(this := \<lparr>data_m = d, size_m = size_m (V1 other)\<rparr>);
          V3 = V2(other := (V2 other)\<lparr>size_m := 0\<rparr>)
      in Ok () (W\<lparr>vecs := V3\<rparr>))"

text \<open>
  \<^verbatim>\<open>~Vector()\<close> followed by the destructor of its member \<^verbatim>\<open>data_\<close>, for an object
  with members \<open>v\<close>.
\<close>

definition Vector_dtor :: "'a elem_type \<Rightarrow> Vector \<Rightarrow> 'a world \<Rightarrow> (unit, 'a world) outcome" where
  "Vector_dtor T v W =
     and_then
       (if GetAddress (data_m v) \<noteq> nullptr
        then destroy_n T (GetAddress (data_m v), 0) (size_m v) W
        else Ok () W)
       (\<lambda>_ W1. RawMemory_dtor (data_m v) W1)"

text \<open>\<^verbatim>\<open>Swap\<close> (lines 345 to 348) on the objects \<open>this\<close> and \<open>other\<close>.\<close>

definition Vector_Swap :: "nat \<Rightarrow> nat \<Rightarrow> 'a world \<Rightarrow> (unit, 'a world) outcome" where
  "Vector_Swap this other W =
     (let V = vecs W;
          (a, b) = RawMemory_Swap (data_m (V this)) (data_m (V other));
          V1 = V(this := (V this)\<lparr>data_m := a\<rparr>);
          V2 = V1(other := (V1 other)\<lparr>data_m := b\<rparr>);
          n = size_m (V2 this);
          V3 = V2(this := (V2 this)\<lparr>size_m := size_m (V2 other)\<rparr>);
          V4 = V3(other := (V3 other)\<lparr>size_m := n\<rparr>)
      in Ok () (W\<lparr>vecs := V4\<rparr>))"

text \<open>
  The loop of copy assignment, \<^verbatim>\<open>data_[i] = rhs[i]\<close> for \<open>i\<close> and the \<open>k\<close>
  indices after it; \<open>v\<close> and \<open>r\<close> are the members of \<^verbatim>\<open>*this\<close> and \<^verbatim>\<open>rhs\<close>.
\<close>

fun copy_assign_loop ::
  "'a elem_type \<Rightarrow> Vector \<Rightarrow> Vector \<Rightarrow> nat \<Rightarrow> nat \<Rightarrow> 'a world \<Rightarrow> (unit, 'a world) outcome" where
  "copy_assign_loop T v r i 0 W = Ok () W"
| "copy_assign_loop T v r i (Suc k) W =
     (case RawMemory_index (data_m v) i of
        None \<Rightarrow> UB
      | Some d \<Rightarrow>
          (case Vector_index r i of
             None \<Rightarrow> UB
           | Some s \<Rightarrow>
               and_then (copy_assign_at T d s W) (\<lambda>_ W1. copy_assign_loop T v r (Suc i) k W1)))"

text \<open>
  \<^verbatim>\<open>operator=(const Vector& rhs)\<close> (lines 142 to 175).  In the first branch the local
  \<^verbatim>\<open>temp\<close> is built, swapped with \<^verbatim>\<open>*this\<close> and destroyed at the end of its block.
\<close>

definition Vector_assign_copy ::
  "'a elem_type \<Rightarrow> nat \<Rightarrow> nat \<Rightarrow> 'a world \<Rightarrow> (unit, 'a world) outcome" where
  "Vector_assign_copy T this rhs W =
     (if this \<noteq> rhs
      then
        and_then
          (if size_m (vecs W rhs) > Capacity (data_m (vecs W this))
           then
             and_then (Vector_copy_construct T (vecs W rhs) W)
               (\<lambda>temp W1.
                  let old = vecs W1 this;
                      W2 = W1\<lparr>vecs := (vecs W1)(this := temp)\<rparr>
                  in Vector_dtor T old W2)
           else
             (let v = vecs W this; r = vecs W rhs
              in and_then (copy_assign_loop T v r 0 (min (size_m v) (size_m r)) W)
                   (\<lambda>_ W1.
                      if size_m v > size_m r
                      then
                        (case RawMemory_plus (data_m v) (size_m r) of
                           None \<Rightarrow> UB
                         | Some p \<Rightarrow> destroy_n T p (size_m v - size_m r) W1)
                      else if size_m v < size_m r
                      then
                        (case RawMemory_plus (data_m r) (size_m v) of
                           None \<Rightarrow> UB
                         | Some s \<Rightarrow>
                             (case RawMemory_plus (data_m v) (size_m v) of
                                None \<Rightarrow> UB
                              | Some d \<Rightarrow>
                                  uninitialized_copy_n T s (size_m r - size_m v) d W1))
                      else Ok () W1)))
          (\<lambda>_ W3.
             Ok () (W3\<lparr>vecs := (vecs W3)
                      (this := (vecs W3 this)\<lparr>size_m := size_m (vecs W3 rhs)\<rparr>)\<rparr>))
      else Ok () W)"

text \<open>
  \<^verbatim>\<open>operator=(Vector&& rhs)\<close> (lines 176 to 182).  The two \<^verbatim>\<open>data_\<close> members are
  the objects \<open>0\<close> and \<open>1\<close> of the store that move assignment of \<^verbatim>\<open>RawMemory\<close> works
  on.
\<close>

definition Vector_assign_move :: "nat \<Rightarrow> nat \<Rightarrow> 'a world \<Rightarrow> (unit, 'a world) outcome" where
  "Vector_assign_move this rhs W =
     (if this \<noteq> rhs
      then
        (let V = vecs W;
             M = RawMemory_move_assign 0 1
                   (\<lambda>k. if k = 0 then data_m (V this) else data_m (V rhs));
             V1 = V(this := (V this)\<lparr>data_m := M 0\<rparr>);
             V2 = V1(rhs := (V1 rhs)\<lparr>data_m := M 1\<rparr>);
             V3 = V2(this := (V2 this)\<lparr>size_m := size_m (V2 rhs)\<rparr>)
         in Ok () (W\<lparr>vecs := V3\<rparr>))
      else Ok () W)"

section \<open>Vector: insertion, removal, capacity\<close>

text \<open>
  The branch of the compile-time test
  \<^verbatim>\<open>is_nothrow_move_constructible_v<T> || !is_copy_constructible_v<T>\<close>.
\<close>

definition relocate_by_move :: "'a elem_type \<Rightarrow> bool" where
  "relocate_by_move T = (nothrow_move T \<or> \<not> copy_constructible T)"

definition relocate_n ::
  "'a elem_type \<Rightarrow> ptr \<Rightarrow> nat \<Rightarrow> ptr \<Rightarrow> 'a world \<Rightarrow> (unit, 'a world) outcome" where
  "relocate_n T first n d_first W =
     (if relocate_by_move T
      then uninitialized_move_n T first n d_first W
      else uninitialized_copy_n T first n d_first W)"

text \<open>
  \<^verbatim>\<open>UnusedEmplaceBack\<close> (lines 433 to 438); \<open>arg\<close> is the value the constructor
  call \<^verbatim>\<open>T(std::forward<Args>(args)...)\<close> builds.  The result is the reference
  returned.
\<close>

definition UnusedEmplaceBack ::
  "'a elem_type \<Rightarrow> nat \<Rightarrow> 'a \<Rightarrow> 'a world \<Rightarrow> (ptr, 'a world) outcome" where
  "UnusedEmplaceBack T this arg W =
     (let v = vecs W this
      in case RawMemory_plus (data_m v) (size_m v) of
           None \<Rightarrow> UB
         | Some p \<Rightarrow>
             and_then (construct_at T p arg W)
               (\<lambda>_ W1.
                  let v1 = vecs W1 this
                  in case RawMemory_index (data_m v1) (size_m v1) of
                       None \<Rightarrow> UB
                     | Some r \<Rightarrow>
                         Ok r (W1\<lparr>vecs := (vecs W1)(this := v1\<lparr>size_m := Suc (size_m v1)\<rparr>)\<rparr>)))"

text \<open>
  \<^verbatim>\<open>RelocatedEmplaceBack\<close> (lines 440 to 468).  The local \<^verbatim>\<open>temp\<close> is destroyed
  on every way out: after the swap it owns the old buffer.
\<close>

definition RelocatedEmplaceBack ::
  "'a elem_type \<Rightarrow> nat \<Rightarrow> 'a \<Rightarrow> 'a world \<Rightarrow> (ptr, 'a world) outcome" where
  "RelocatedEmplaceBack T this arg W =
     (let v = vecs W this;
          (temp, W1) = RawMemory_ctor (if size_m v = 0 then 1 else size_m v * 2) W
      in case construct_at T (ptr_add (GetAddress temp, 0) (size_m v)) arg W1 of
           UB \<Rightarrow> UB
         | Throw e W2 \<Rightarrow> and_then (RawMemory_dtor temp W2) (\<lambda>_ W3. Throw e W3)
         | Ok _ W2 \<Rightarrow>
             (case catch_std_rethrow
                     (relocate_n T (GetAddress (data_m v), 0) (size_m v) (GetAddress temp, 0) W2)
                     (destroy_n T (GetAddress temp, 0) (size_m v + 1)) of
                UB \<Rightarrow> UB
              | Throw e W3 \<Rightarrow> and_then (RawMemory_dtor temp W3) (\<lambda>_ W4. Throw e W4)
              | Ok _ W3 \<Rightarrow>
                  and_then (destroy_n T (GetAddress (data_m v), 0) (size_m v) W3)
                    (\<lambda>_ W4.
                       let (d, temp1) = RawMemory_Swap (data_m v) temp;
                           v1 = v\<lparr>data_m := d, size_m := Suc (size_m v)\<rparr>;
                           W5 = W4\<lparr>vecs := (vecs W4)(this := v1)\<rparr>
                       in case RawMemory_index (data_m v1) (size_m v1 - 1) of
                            None \<Rightarrow> UB
                          | Some r \<Rightarrow>
                              and_then (RawMemory_dtor temp1 W5) (\<lambda>_ W6. Ok r W6))))"

definition EmplaceBack ::
  "'a elem_type \<Rightarrow> nat \<Rightarrow> 'a \<Rightarrow> 'a world \<Rightarrow> (ptr, 'a world) outcome" where
  "EmplaceBack T this arg W =
     (if size_m (vecs W this) = Capacity (data_m (vecs W this))
      then RelocatedEmplaceBack T this arg W
      else UnusedEmplaceBack T this arg W)"

text \<open>
  Both overloads of \<^verbatim>\<open>PushBack\<close> forward to \<^verbatim>\<open>EmplaceBack\<close>; the element built
  has the value of the argument.
\<close>

definition PushBack ::
  "'a elem_type \<Rightarrow> nat \<Rightarrow> 'a \<Rightarrow> 'a world \<Rightarrow> (unit, 'a world) outcome" where
  "PushBack T this x W = and_then (EmplaceBack T this x W) (\<lambda>_ W1. Ok () W1)"

text \<open>
  \<^verbatim>\<open>PopBack\<close> (lines 257 to 259).  On an empty vector \<^verbatim>\<open>--size_\<close> wraps to the
  largest \<^verbatim>\<open>size_t\<close> and the index is outside the block.
\<close>

definition PopBack :: "'a elem_type \<Rightarrow> nat \<Rightarrow> 'a world \<Rightarrow> (unit, 'a world) outcome" where
  "PopBack T this W =
     (let v = vecs W this
      in if size_m v = 0 then UB
         else
           (let v1 = v\<lparr>size_m := size_m v - 1\<rparr>;
                W1 = W\<lparr>vecs := (vecs W)(this := v1)\<rparr>
            in case RawMemory_index (data_m v1) (size_m v1) of
                 None \<Rightarrow> UB
               | Some p \<Rightarrow> destroy_at T p W1))"

text \<open>\<^verbatim>\<open>end() - 1\<close> of the object \<open>this\<close>, the iterator two branches return.\<close>

definition end_minus_1 :: "nat \<Rightarrow> 'a world \<Rightarrow> (ptr, 'a world) outcome" where
  "end_minus_1 this W =
     (case Vector_end (vecs W this) of
        None \<Rightarrow> UB
      | Some e \<Rightarrow> (case ptr_sub e 1 of None \<Rightarrow> UB | Some r \<Rightarrow> Ok r W))"

text \<open>\<^verbatim>\<open>Erase\<close> (lines 260 to 274).\<close>

definition Erase :: "'a elem_type \<Rightarrow> nat \<Rightarrow> ptr \<Rightarrow> 'a world \<Rightarrow> (ptr, 'a world) outcome" where
  "Erase T this pos W =
     (let v = vecs W this
      in case Vector_end v of
           None \<Rightarrow> UB
         | Some e \<Rightarrow>
             if pos = e
             then and_then (PopBack T this W) (\<lambda>_ W1. end_minus_1 this W1)
             else
               (case ptr_diff pos (Vector_begin v) of
                  None \<Rightarrow> UB
                | Some erase_begin_align \<Rightarrow>
                    and_then
                      (move_range T (ptr_add (Vector_begin v) (erase_begin_align + 1)) e
                         (ptr_add (Vector_begin v) erase_begin_align) W)
                      (\<lambda>_ W1.
                         and_then (PopBack T this W1)
                           (\<lambda>_ W2.
                              Ok (ptr_add (Vector_begin (vecs W2 this)) erase_begin_align) W2))))"

text \<open>
  \<^verbatim>\<open>UnusedEmplace\<close> (lines 355 to 383).  \<^verbatim>\<open>data_[size_ - 1]\<close> on an empty vector
  has an index that wrapped around.  The handler calls \<^verbatim>\<open>operator delete (end())\<close>.
\<close>

definition UnusedEmplace ::
  "'a elem_type \<Rightarrow> nat \<Rightarrow> ptr \<Rightarrow> 'a \<Rightarrow> 'a world \<Rightarrow> (ptr, 'a world) outcome" where
  "UnusedEmplace T this pos arg W =
     (let v = vecs W this
      in case Vector_end v of
           None \<Rightarrow> UB
         | Some e \<Rightarrow>
             if pos = e
             then and_then (UnusedEmplaceBack T this arg W) (\<lambda>_ W1. end_minus_1 this W1)
             else
               (case ptr_diff pos (Vector_begin v) of
                  None \<Rightarrow> UB
                | Some insert_begin_align \<Rightarrow>
                    and_then
                      (catch_std_rethrow
                         (and_then (construct_local T arg W)
                            (\<lambda>temp_obj W1.
                               if size_m v = 0 then UB
                               else
                                 (case RawMemory_index (data_m v) (size_m v - 1) of
                                    None \<Rightarrow> UB
                                  | Some back \<Rightarrow>
                                      and_then (move_construct_at T e back W1)
                                        (\<lambda>_ W2.
                                           case ptr_sub e 1 of
                                             None \<Rightarrow> UB
                                           | Some e1 \<Rightarrow>
                                               and_then
                                                 (move_backward T
                                                    (ptr_add (Vector_begin v) insert_begin_align)
                                                    e1 e W2)
                                                 (\<lambda>_ W3.
                                                    move_assign_from_local T
                                                      (ptr_add (Vector_begin v) insert_begin_align)
                                                      temp_obj W3)))))
                         (operator_delete e))
                      (\<lambda>_ W4.
                         let v1 = (vecs W4 this)\<lparr>size_m := Suc (size_m (vecs W4 this))\<rparr>;
                             W5 = W4\<lparr>vecs := (vecs W4)(this := v1)\<rparr>
                         in case RawMemory_plus (data_m v1) insert_begin_align of
                              None \<Rightarrow> UB
                            | Some r \<Rightarrow> Ok r W5)))"

text \<open>\<^verbatim>\<open>RelocatedEmplace\<close> (lines 385 to 430).\<close>

definition RelocatedEmplace ::
  "'a elem_type \<Rightarrow> nat \<Rightarrow> ptr \<Rightarrow> 'a \<Rightarrow> 'a world \<Rightarrow> (ptr, 'a world) outcome" where
  "RelocatedEmplace T this pos arg W =
     (let v = vecs W this
      in case Vector_end v of
           None \<Rightarrow> UB
         | Some e \<Rightarrow>
             if pos = e
             then and_then (RelocatedEmplaceBack T this arg W) (\<lambda>_ W1. end_minus_1 this W1)
             else
               (case ptr_diff pos (Vector_begin v) of
                  None \<Rightarrow> UB
                | Some insert_begin_align \<Rightarrow>
                    (case ptr_diff e pos of
                       None \<Rightarrow> UB
                     | Some insert_back_align \<Rightarrow>
                         (let (temp, W1) =
                                RawMemory_ctor (if size_m v = 0 then 1 else size_m v * 2) W
                          in case construct_at T
                                    (ptr_add (GetAddress temp, 0) insert_begin_align) arg W1 of
                               UB \<Rightarrow> UB
                             | Throw e1 W2 \<Rightarrow>
                                 and_then (RawMemory_dtor temp W2) (\<lambda>_ W3. Throw e1 W3)
                             | Ok _ W2 \<Rightarrow>
                                 (case catch_std_rethrow
                                         (and_then
                                            (relocate_n T (GetAddress (data_m v), 0)
                                               insert_begin_align (GetAddress temp, 0) W2)
                                            (\<lambda>_ W2a.
                                               relocate_n T
                                                 (ptr_add (GetAddress (data_m v), 0)
                                                    insert_begin_align)
                                                 insert_back_align
                                                 (ptr_add (GetAddress temp, 0)
                                                    (insert_begin_align + 1))
                                                 W2a))
                                         (destroy_n T (GetAddress temp, 0) (size_m v + 1)) of
                                    UB \<Rightarrow> UB
                                  | Throw e1 W3 \<Rightarrow>
                                      and_then (RawMemory_dtor temp W3) (\<lambda>_ W4. Throw e1 W4)
                                  | Ok _ W3 \<Rightarrow>
                                      and_then
                                        (destroy_n T (GetAddress (data_m v), 0) (size_m v) W3)
                                        (\<lambda>_ W4.
                                           let (d, temp1) = RawMemory_Swap (data_m v) temp;
                                               v1 = v\<lparr>data_m := d, size_m := Suc (size_m v)\<rparr>;
                                               W5 = W4\<lparr>vecs := (vecs W4)(this := v1)\<rparr>
                                           in case RawMemory_plus (data_m v1)
                                                     insert_begin_align of
                                                None \<Rightarrow> UB
                                              | Some r \<Rightarrow>
                                                  and_then (RawMemory_dtor temp1 W5)
                                                    (\<lambda>_ W6. Ok r W6)))))))"

definition Emplace ::
  "'a elem_type \<Rightarrow> nat \<Rightarrow> ptr \<Rightarrow> 'a \<Rightarrow> 'a world \<Rightarrow> (ptr, 'a world) outcome" where
  "Emplace T this pos arg W =
     (if size_m (vecs W this) = Capacity (data_m (vecs W this))
      then RelocatedEmplace T this pos arg W
      else UnusedEmplace T this pos arg W)"

text \<open>Both overloads of \<^verbatim>\<open>Insert\<close> forward to \<^verbatim>\<open>Emplace\<close>.\<close>

definition Insert ::
  "'a elem_type \<Rightarrow> nat \<Rightarrow> ptr \<Rightarrow> 'a \<Rightarrow> 'a world \<Rightarrow> (ptr, 'a world) outcome" where
  "Insert T this pos x W = Emplace T this pos x W"

text \<open>\<^verbatim>\<open>Reserve\<close> (lines 300 to 320); the local \<^verbatim>\<open>new_data\<close> is destroyed on every way out.\<close>

definition Reserve :: "'a elem_type \<Rightarrow> nat \<Rightarrow> nat \<Rightarrow> 'a world \<Rightarrow> (unit, 'a world) outcome" where
  "Reserve T this new_capacity W =
     (let v = vecs W this
      in if new_capacity \<le> Capacity (data_m v) then Ok () W
         else
           (let (new_data, W1) = RawMemory_ctor new_capacity W
            in case relocate_n T (GetAddress (data_m v), 0) (size_m v)
                      (GetAddress new_data, 0) W1 of
                 UB \<Rightarrow> UB
               | Throw e W2 \<Rightarrow> and_then (RawMemory_dtor new_data W2) (\<lambda>_ W3. Throw e W3)
               | Ok _ W2 \<Rightarrow>
                   and_then (destroy_n T (GetAddress (data_m v), 0) (size_m v) W2)
                     (\<lambda>_ W3.
                        let (d, new_data1) = RawMemory_Swap (data_m v) new_data;
                            W4 = W3\<lparr>vecs := (vecs W3)(this := v\<lparr>data_m := d\<rparr>)\<rparr>
                        in RawMemory_dtor new_data1 W4)))"

text \<open>\<^verbatim>\<open>Resize\<close> (lines 321 to 344).\<close>

definition Resize :: "'a elem_type \<Rightarrow> nat \<Rightarrow> nat \<Rightarrow> 'a world \<Rightarrow> (unit, 'a world) outcome" where
  "Resize T this new_size W =
     and_then
       (let v = vecs W this
        in if new_size < size_m v
           then
             (case RawMemory_plus (data_m v) new_size of
                None \<Rightarrow> UB
              | Some p \<Rightarrow> destroy_n T p (size_m v - new_size) W)
           else
             and_then
               (if new_size > Capacity (data_m v) then Reserve T this new_size W else Ok () W)
               (\<lambda>_ W1.
                  let v1 = vecs W1 this
                  in case RawMemory_plus (data_m v1) (size_m v1) of
                       None \<Rightarrow> UB
                     | Some p \<Rightarrow>
                         uninitialized_value_construct_n T p (new_size - size_m v1) W1))
       (\<lambda>_ W2. Ok () (W2\<lparr>vecs := (vecs W2)(this := (vecs W2 this)\<lparr>size_m := new_size\<rparr>)\<rparr>))"

section \<open>Notions used to state the properties\<close>

text \<open>\<open>overwrite ys d zs\<close> is \<open>ys\<close> with the elements from index \<open>d\<close> on replaced by \<open>zs\<close>.\<close>

definition overwrite :: "'b list \<Rightarrow> nat \<Rightarrow> 'b list \<Rightarrow> 'b list" where
  "overwrite ys d zs = take d ys @ zs @ drop (d + length zs) ys"

text \<open>The slot a move leaves behind.\<close>

fun mv_slot :: "'a elem_type \<Rightarrow> 'a slot \<Rightarrow> 'a slot" where
  "mv_slot T Raw = Raw"
| "mv_slot T (Live v) = Live (moved_from T v)"

text \<open>
  The invariant of the object \<open>this\<close> in the world \<open>W\<close>: its size is at most its
  capacity; a null buffer has capacity \<open>0\<close>; any other buffer is an allocated block
  that is not freed, has as many slots as the capacity, and holds an element in each of
  the first \<open>size_m\<close> slots.
\<close>

definition wf_vector :: "'a world \<Rightarrow> nat \<Rightarrow> bool" where
  "wf_vector W this =
     (let v = vecs W this; a = buffer_m (data_m v); c = capacity_m (data_m v)
      in 0 < next_addr W \<and> size_m v \<le> c \<and>
         (if a = nullptr then c = 0
          else 0 < c \<and> a < next_addr W \<and>
            (case heap W a of
               None \<Rightarrow> False
             | Some b \<Rightarrow>
                 \<not> freed b \<and> length (slots b) = c \<and>
                 list_all (\<lambda>s. s \<noteq> Raw) (take (size_m v) (slots b)))))"

text \<open>The elements of the object \<open>this\<close>: the first \<open>size_m\<close> slots of its buffer.\<close>

definition elems :: "'a world \<Rightarrow> nat \<Rightarrow> 'a slot list" where
  "elems W this =
     (case heap W (buffer_m (data_m (vecs W this))) of
        None \<Rightarrow> []
      | Some b \<Rightarrow> take (size_m (vecs W this)) (slots b))"

section \<open>Concrete element types and worlds\<close>

text \<open>
  \<open>int_type\<close> behaves like \<^verbatim>\<open>int\<close>: nothing throws, a move copies.
  \<open>throwing_type k\<close> is copyable, its move constructor may throw, and its \<open>k\<close>-th
  operation throws an exception derived from \<^verbatim>\<open>std::exception\<close>.
  \<open>world_of xs n\<close> holds one vector, object \<open>0\<close>, with the block \<open>xs\<close> at address \<open>1\<close>
  as its buffer and \<open>n\<close> as its size.
\<close>

definition int_type :: "int elem_type" where
  "int_type = \<lparr>nothrow_move = True, copy_constructible = True, trivially_destructible = True,
     moved_from = (\<lambda>v. v), value_init = 0, throw_plan = (\<lambda>_. None)\<rparr>"

definition throwing_type :: "nat \<Rightarrow> int elem_type" where
  "throwing_type k = \<lparr>nothrow_move = False, copy_constructible = True,
     trivially_destructible = True, moved_from = (\<lambda>v. v), value_init = 0,
     throw_plan = (\<lambda>j. if j = k then Some StdException else None)\<rparr>"

definition world_of :: "int slot list \<Rightarrow> nat \<Rightarrow> int world" where
  "world_of xs n =
     \<lparr>heap = (\<lambda>_. None)(1 \<mapsto> \<lparr>freed = False, slots = xs\<rparr>),
      next_addr = 2,
      vecs = (\<lambda>_. Vector_default)
               (0 := \<lparr>data_m = \<lparr>buffer_m = 1, capacity_m = length xs\<rparr>, size_m = n\<rparr>),
      ops = 0\<rparr>"

text \<open>
  \<open>two_vectors xs n ys m\<close> holds two vectors: object \<open>0\<close> with the block \<open>xs\<close> at
  address \<open>1\<close> and size \<open>n\<close>, object \<open>1\<close> with the block \<open>ys\<close> at address \<open>2\<close> and size
  \<open>m\<close>.  \<open>two_blocks\<close> is a store of two \<^verbatim>\<open>RawMemory\<close> objects of capacity \<open>4\<close> with
  different buffers.
\<close>

definition two_vectors :: "int slot list \<Rightarrow> nat \<Rightarrow> int slot list \<Rightarrow> nat \<Rightarrow> int world" where
  "two_vectors xs n ys m =
     \<lparr>heap = (\<lambda>_. None)(1 \<mapsto> \<lparr>freed = False, slots = xs\<rparr>,
                          2 \<mapsto> \<lparr>freed = False, slots = ys\<rparr>),
      next_addr = 3,
      vecs = (\<lambda>_. Vector_default)
               (0 := \<lparr>data_m = \<lparr>buffer_m = 1, capacity_m = length xs\<rparr>, size_m = n\<rparr>,
                1 := \<lparr>data_m = \<lparr>buffer_m = 2, capacity_m = length ys\<rparr>, size_m = m\<rparr>),
      ops = 0\<rparr>"

definition two_blocks :: "nat \<Rightarrow> RawMemory" where
  "two_blocks = (\<lambda>_. RawMemory_default)
                  (0 := \<lparr>buffer_m = 1, capacity_m = 4\<rparr>, 1 := \<lparr>buffer_m = 2, capacity_m = 4\<rparr>)"







section \<open>Element operations and loops on a well-formed heap\<close>

lemma length_overwrite [simp]:
  "d + length zs \<le> length ys \<Longrightarrow> length (overwrite ys d zs) = length ys"
  by (simp add: overwrite_def)

lemma overwrite_Nil [simp]: "overwrite ys d [] = ys"
  by (simp add: overwrite_def)

lemma nth_overwrite:
  "d + length zs \<le> length ys \<Longrightarrow> j < length ys \<Longrightarrow>
   overwrite ys d zs ! j = (if d \<le> j \<and> j < d + length zs then zs ! (j - d) else ys ! j)"
  by (auto simp: overwrite_def nth_append)

lemma overwrite_step:
  "d + Suc (length zs) \<le> length ys \<Longrightarrow>
   overwrite (ys[d := z]) (Suc d) zs = overwrite ys d (z # zs)"
  by (rule nth_equalityI) (auto simp: nth_overwrite nth_list_update nth_Cons')

lemma overwrite_snoc:
  "d + Suc (length zs) \<le> length ys \<Longrightarrow>
   (overwrite ys d zs)[d + length zs := z] = overwrite ys d (zs @ [z])"
  by (rule nth_equalityI) (auto simp: nth_overwrite nth_list_update nth_append)

lemma and_then_Ok [simp]: "and_then (Ok r s) k = k r s"
  by (simp add: and_then_def)

lemma and_then_Throw [simp]: "and_then (Throw e s) k = Throw e s"
  by (simp add: and_then_def)

lemma and_then_UB [simp]: "and_then UB k = UB"
  by (simp add: and_then_def)

lemma slot_at_live:
  "heap W a = Some b \<Longrightarrow> \<not> freed b \<Longrightarrow> i < length (slots b) \<Longrightarrow>
   slot_at W (a, i) = Some (slots b ! i)"
  by (simp add: slot_at_def)

lemma destroy_at_ok:
  assumes "heap W a = Some b" "\<not> freed b" "i < length (slots b)"
    "trivially_destructible T \<or> slots b ! i \<noteq> Raw"
  shows "destroy_at T (a, i) W =
           Ok () (W\<lparr>heap := (heap W)(a \<mapsto> b\<lparr>slots := (slots b)[i := Raw]\<rparr>)\<rparr>)"
proof (cases "slots b ! i")
  case Raw
  then have "(slots b)[i := Raw] = slots b"
    by (metis list_update_id)
  then have "W\<lparr>heap := (heap W)(a \<mapsto> b\<lparr>slots := (slots b)[i := Raw]\<rparr>)\<rparr> = W"
    using assms(1) by (simp add: map_upd_triv)
  then show ?thesis
    using assms Raw by (simp add: destroy_at_def slot_at_def)
next
  case (Live v)
  then show ?thesis
    using assms by (simp add: destroy_at_def slot_at_def put_slot_def)
qed

lemma destroy_n_ok:
  "heap W a = Some b \<Longrightarrow> \<not> freed b \<Longrightarrow> d + n \<le> length (slots b) \<Longrightarrow>
   trivially_destructible T \<or> (\<forall>j<n. slots b ! (d + j) \<noteq> Raw) \<Longrightarrow>
   destroy_n T (a, d) n W =
     Ok () (W\<lparr>heap := (heap W)(a \<mapsto> b\<lparr>slots := overwrite (slots b) d (replicate n Raw)\<rparr>)\<rparr>)"
proof (induction n arbitrary: d W b)
  case 0
  then show ?case by (simp add: map_upd_triv)
next
  case (Suc n)
  let ?b1 = "b\<lparr>slots := (slots b)[d := Raw]\<rparr>"
  let ?W1 = "W\<lparr>heap := (heap W)(a \<mapsto> ?b1)\<rparr>"
  have d: "destroy_at T (a, d) W = Ok () ?W1"
    using Suc.prems by (intro destroy_at_ok) auto
  have "trivially_destructible T \<or> (\<forall>j<n. slots ?b1 ! (Suc d + j) \<noteq> Raw)"
    using Suc.prems(4) by (auto simp: nth_list_update) 
  then have "destroy_n T (a, Suc d) n ?W1 =
     Ok () (?W1\<lparr>heap := (heap ?W1)(a \<mapsto> ?b1\<lparr>slots := overwrite (slots ?b1) (Suc d) (replicate n Raw)\<rparr>)\<rparr>)"
    using Suc.prems by (intro Suc.IH) auto
  moreover have "overwrite (slots ?b1) (Suc d) (replicate n Raw) = overwrite (slots b) d (replicate (Suc n) Raw)"
    using Suc.prems overwrite_step[of d "replicate n Raw" "slots b" Raw] by simp
  moreover have "\<And>X. ?W1\<lparr>heap := (heap ?W1)(a \<mapsto> X)\<rparr> = W\<lparr>heap := (heap W)(a \<mapsto> X)\<rparr>"
    by simp
  ultimately show ?case
    using d by (auto simp add: ptr_add_def fun_eq_iff simp del: replicate_Suc)
qed

lemma overwrite_inside:
  "d + length zs \<le> length ys \<Longrightarrow> d \<le> m \<Longrightarrow> m < d + length zs \<Longrightarrow>
   overwrite (ys[m := z]) d zs = overwrite ys d zs"
  by (rule nth_equalityI) (auto simp: nth_overwrite nth_list_update)

lemma take_Suc_drop:
  "m < length xs \<Longrightarrow> take (Suc k) (drop m xs) = xs ! m # take k (drop (Suc m) xs)"
  by (simp add: Cons_nth_drop_Suc [symmetric])

lemma construct_at_ok:
  "heap W a = Some b \<Longrightarrow> \<not> freed b \<Longrightarrow> i < length (slots b) \<Longrightarrow>
   throw_plan T (ops W) = None \<Longrightarrow>
   construct_at T (a, i) v W =
     Ok () (W\<lparr>heap := (heap W)(a \<mapsto> b\<lparr>slots := (slots b)[i := Live v]\<rparr>),
              ops := Suc (ops W)\<rparr>)"
  by (simp add: construct_at_def slot_at_def put_slot_def tick_def)

lemma construct_at_throw:
  "heap W a = Some b \<Longrightarrow> \<not> freed b \<Longrightarrow> i < length (slots b) \<Longrightarrow>
   throw_plan T (ops W) = Some e \<Longrightarrow>
   construct_at T (a, i) v W = Throw e (W\<lparr>ops := Suc (ops W)\<rparr>)"
  by (simp add: construct_at_def slot_at_def tick_def)

lemma copy_construct_at_ok:
  assumes "heap W as = Some sb" "\<not> freed sb" "s < length (slots sb)" "slots sb ! s \<noteq> Raw"
    "heap W ad = Some db" "\<not> freed db" "d < length (slots db)"
    "throw_plan T (ops W) = None"
  shows "copy_construct_at T (ad, d) (as, s) W =
     Ok () (W\<lparr>heap := (heap W)(ad \<mapsto> db\<lparr>slots := (slots db)[d := slots sb ! s]\<rparr>),
              ops := Suc (ops W)\<rparr>)"
proof -
  obtain v where v: "slots sb ! s = Live v"
    using assms(4) by (cases "slots sb ! s") auto
  show ?thesis
    using assms v by (simp add: copy_construct_at_def slot_at_def construct_at_ok)
qed

lemma copy_construct_at_throw:
  assumes "heap W as = Some sb" "\<not> freed sb" "s < length (slots sb)" "slots sb ! s \<noteq> Raw"
    "heap W ad = Some db" "\<not> freed db" "d < length (slots db)"
    "throw_plan T (ops W) = Some e"
  shows "copy_construct_at T (ad, d) (as, s) W = Throw e (W\<lparr>ops := Suc (ops W)\<rparr>)"
proof -
  obtain v where v: "slots sb ! s = Live v"
    using assms(4) by (cases "slots sb ! s") auto
  show ?thesis
    using assms v by (simp add: copy_construct_at_def slot_at_def construct_at_throw)
qed

lemma uninit_copy_ok:
  assumes "heap W as = Some sb" "\<not> freed sb" "heap W ad = Some db" "\<not> freed db" "as \<noteq> ad"
    "s + i + k \<le> length (slots sb)" "d + i + k \<le> length (slots db)"
    "\<forall>j<k. slots sb ! (s + i + j) \<noteq> Raw"
    "\<forall>j<k. throw_plan T (ops W + j) = None"
  shows "uninitialized_copy_loop T (as, s) (ad, d) i k W =
     Ok () (W\<lparr>heap := (heap W)(ad \<mapsto>
                 db\<lparr>slots := overwrite (slots db) (d + i) (take k (drop (s + i) (slots sb)))\<rparr>),
              ops := ops W + k\<rparr>)"
  using assms
proof (induction k arbitrary: i W db)
  case 0
  then show ?case by (simp add: map_upd_triv)
next
  case (Suc k)
  let ?db1 = "db\<lparr>slots := (slots db)[d + i := slots sb ! (s + i)]\<rparr>"
  let ?W1 = "W\<lparr>heap := (heap W)(ad \<mapsto> ?db1), ops := Suc (ops W)\<rparr>"
  have src: "slots sb ! (s + i) \<noteq> Raw" and np: "throw_plan T (ops W) = None"
    using Suc.prems(8,9) by force+
  have step: "copy_construct_at T (ad, d + i) (as, s + i) W = Ok () ?W1"
    using Suc.prems src np by (intro copy_construct_at_ok[where sb=sb and db=db]) auto
  have "uninitialized_copy_loop T (as, s) (ad, d) (Suc i) k ?W1 =
     Ok () (?W1\<lparr>heap := (heap ?W1)(ad \<mapsto>
                 ?db1\<lparr>slots := overwrite (slots ?db1) (d + Suc i) (take k (drop (s + Suc i) (slots sb)))\<rparr>),
              ops := ops ?W1 + k\<rparr>)"
  proof (rule Suc.IH)
    show "\<forall>j<k. slots sb ! (s + Suc i + j) \<noteq> Raw"
    proof (intro allI impI)
      fix j assume "j < k"
      then have "slots sb ! (s + i + Suc j) \<noteq> Raw"
        using Suc.prems(8) by auto
      then show "slots sb ! (s + Suc i + j) \<noteq> Raw" by simp
    qed
    show "\<forall>j<k. throw_plan T (ops ?W1 + j) = None"
    proof (intro allI impI)
      fix j assume "j < k"
      then have "throw_plan T (ops W + Suc j) = None"
        using Suc.prems(9) by auto
      then show "throw_plan T (ops ?W1 + j) = None" by simp
    qed
  qed (use Suc.prems in auto)
  moreover have "overwrite (slots ?db1) (d + Suc i) (take k (drop (s + Suc i) (slots sb))) =
      overwrite (slots db) (d + i) (take (Suc k) (drop (s + i) (slots sb)))"
    using Suc.prems(6,7) overwrite_step[of "d + i" "take k (drop (Suc (s + i)) (slots sb))" "slots db" "slots sb ! (s + i)"]
    by (simp add: take_Suc_drop)
  ultimately show ?case
    using step by (auto simp add: ptr_add_def fun_eq_iff simp del: take_Suc_Cons)
qed

lemma uninit_copy_throw:
  assumes "heap W as = Some sb" "\<not> freed sb" "heap W ad = Some db" "\<not> freed db" "as \<noteq> ad"
    "s + i + k \<le> length (slots sb)" "d + i + k \<le> length (slots db)"
    "j < k"
    "\<forall>j'\<le>j. slots sb ! (s + i + j') \<noteq> Raw"
    "\<forall>j'<j. throw_plan T (ops W + j') = None"
    "throw_plan T (ops W + j) = Some e"
    "trivially_destructible T \<or> (\<forall>j'<i. slots db ! (d + j') \<noteq> Raw)"
  shows "uninitialized_copy_loop T (as, s) (ad, d) i k W =
     Throw e (W\<lparr>heap := (heap W)(ad \<mapsto>
                 db\<lparr>slots := overwrite (slots db) d (replicate (i + j) Raw)\<rparr>),
              ops := Suc (ops W + j)\<rparr>)"
  using assms
proof (induction j arbitrary: i k W db)
  case 0
  then obtain k' where k: "k = Suc k'"
    by (cases k) auto
  let ?W1 = "W\<lparr>ops := Suc (ops W)\<rparr>"
  have step: "copy_construct_at T (ad, d + i) (as, s + i) W = Throw e ?W1"
    using 0 k by (intro copy_construct_at_throw[where sb=sb and db=db]) auto
  have "destroy_n T (ad, d) i ?W1 =
      Ok () (?W1\<lparr>heap := (heap ?W1)(ad \<mapsto> db\<lparr>slots := overwrite (slots db) d (replicate i Raw)\<rparr>)\<rparr>)"
    using 0 k by (intro destroy_n_ok[where b=db]) auto
  then show ?case
    using step k by (auto simp add: ptr_add_def fun_eq_iff)
next
  case (Suc j)
  then obtain k' where k: "k = Suc k'"
    by (cases k) auto
  let ?db1 = "db\<lparr>slots := (slots db)[d + i := slots sb ! (s + i)]\<rparr>"
  let ?W1 = "W\<lparr>heap := (heap W)(ad \<mapsto> ?db1), ops := Suc (ops W)\<rparr>"
  have src: "slots sb ! (s + i) \<noteq> Raw" and np: "throw_plan T (ops W) = None"
    using Suc.prems(9,10) by force+
  have step: "copy_construct_at T (ad, d + i) (as, s + i) W = Ok () ?W1"
    using Suc.prems src np k by (intro copy_construct_at_ok[where sb=sb and db=db]) auto
  have "uninitialized_copy_loop T (as, s) (ad, d) (Suc i) k' ?W1 =
     Throw e (?W1\<lparr>heap := (heap ?W1)(ad \<mapsto>
                 ?db1\<lparr>slots := overwrite (slots ?db1) d (replicate (Suc i + j) Raw)\<rparr>),
              ops := Suc (ops ?W1 + j)\<rparr>)"
  proof (rule Suc.IH)
    show "\<forall>j'\<le>j. slots sb ! (s + Suc i + j') \<noteq> Raw"
    proof (intro allI impI)
      fix j' assume "j' \<le> j"
      then have "slots sb ! (s + i + Suc j') \<noteq> Raw"
        using Suc.prems(9) by auto
      then show "slots sb ! (s + Suc i + j') \<noteq> Raw" by simp
    qed
    show "\<forall>j'<j. throw_plan T (ops ?W1 + j') = None"
    proof (intro allI impI)
      fix j' assume "j' < j"
      then have "throw_plan T (ops W + Suc j') = None"
        using Suc.prems(10) by auto
      then show "throw_plan T (ops ?W1 + j') = None" by simp
    qed
    show "throw_plan T (ops ?W1 + j) = Some e"
      using Suc.prems(11) by simp
    show "trivially_destructible T \<or> (\<forall>j'<Suc i. slots ?db1 ! (d + j') \<noteq> Raw)"
      using Suc.prems(12) src Suc.prems(7) k
      by (auto simp: nth_list_update less_Suc_eq)
  qed (use Suc.prems k in auto)
  moreover have "overwrite (slots ?db1) d (replicate (Suc i + j) Raw) =
      overwrite (slots db) d (replicate (i + Suc j) Raw)"
    using Suc.prems(7,8) overwrite_inside[of d "replicate (Suc (i + j)) Raw" "slots db" "d + i"]
    by simp
  ultimately show ?case
    using step k by (auto simp add: ptr_add_def fun_eq_iff simp del: replicate_Suc)
qed

lemma mv_slot_Raw [simp]: "mv_slot T x = Raw \<longleftrightarrow> x = Raw"
  by (cases x) auto

lemma move_construct_at_ok:
  assumes "heap W as = Some sb" "\<not> freed sb" "s < length (slots sb)" "slots sb ! s \<noteq> Raw"
    "heap W ad = Some db" "\<not> freed db" "d < length (slots db)" "as \<noteq> ad"
    "nothrow_move T \<or> throw_plan T (ops W) = None"
  shows "move_construct_at T (ad, d) (as, s) W =
     Ok () (W\<lparr>heap := (heap W)(ad \<mapsto> db\<lparr>slots := (slots db)[d := slots sb ! s]\<rparr>,
                               as \<mapsto> sb\<lparr>slots := (slots sb)[s := mv_slot T (slots sb ! s)]\<rparr>),
              ops := (if nothrow_move T then ops W else Suc (ops W))\<rparr>)"
proof -
  obtain v where v: "slots sb ! s = Live v"
    using assms(4) by (cases "slots sb ! s") auto
  show ?thesis
    using assms v by (auto simp add: move_construct_at_def slot_at_def put_slot_def tick_def)
qed

lemma uninit_move_ok:
  assumes "heap W as = Some sb" "\<not> freed sb" "heap W ad = Some db" "\<not> freed db" "as \<noteq> ad"
    "s + i + k \<le> length (slots sb)" "d + i + k \<le> length (slots db)"
    "\<forall>j<k. slots sb ! (s + i + j) \<noteq> Raw"
    "nothrow_move T \<or> (\<forall>j<k. throw_plan T (ops W + j) = None)"
  shows "uninitialized_move_loop T (as, s) (ad, d) i k W =
     Ok () (W\<lparr>heap := (heap W)
                 (ad \<mapsto> db\<lparr>slots := overwrite (slots db) (d + i) (take k (drop (s + i) (slots sb)))\<rparr>,
                  as \<mapsto> sb\<lparr>slots := overwrite (slots sb) (s + i)
                                        (map (mv_slot T) (take k (drop (s + i) (slots sb))))\<rparr>),
              ops := (if nothrow_move T then ops W else ops W + k)\<rparr>)"
  using assms
proof (induction k arbitrary: i W db sb)
  case 0
  then show ?case by (auto simp add: map_upd_triv fun_eq_iff)
next
  case (Suc k)
  let ?x = "slots sb ! (s + i)"
  let ?db1 = "db\<lparr>slots := (slots db)[d + i := ?x]\<rparr>"
  let ?sb1 = "sb\<lparr>slots := (slots sb)[s + i := mv_slot T ?x]\<rparr>"
  let ?W1 = "W\<lparr>heap := (heap W)(ad \<mapsto> ?db1, as \<mapsto> ?sb1),
                ops := (if nothrow_move T then ops W else Suc (ops W))\<rparr>"
  have src: "?x \<noteq> Raw" and np: "nothrow_move T \<or> throw_plan T (ops W) = None"
    using Suc.prems(8,9) by force+
  have step: "move_construct_at T (ad, d + i) (as, s + i) W = Ok () ?W1"
    using Suc.prems src np by (intro move_construct_at_ok[where sb=sb and db=db]) auto
  have "uninitialized_move_loop T (as, s) (ad, d) (Suc i) k ?W1 =
     Ok () (?W1\<lparr>heap := (heap ?W1)
                 (ad \<mapsto> ?db1\<lparr>slots := overwrite (slots ?db1) (d + Suc i) (take k (drop (s + Suc i) (slots ?sb1)))\<rparr>,
                  as \<mapsto> ?sb1\<lparr>slots := overwrite (slots ?sb1) (s + Suc i)
                                        (map (mv_slot T) (take k (drop (s + Suc i) (slots ?sb1))))\<rparr>),
              ops := (if nothrow_move T then ops ?W1 else ops ?W1 + k)\<rparr>)"
  proof (rule Suc.IH)
    show "\<forall>j<k. slots ?sb1 ! (s + Suc i + j) \<noteq> Raw"
    proof (intro allI impI)
      fix j assume "j < k"
      then have "slots sb ! (s + i + Suc j) \<noteq> Raw"
        using Suc.prems(8) by auto
      then show "slots ?sb1 ! (s + Suc i + j) \<noteq> Raw" by simp
    qed
    show "nothrow_move T \<or> (\<forall>j<k. throw_plan T (ops ?W1 + j) = None)"
    proof (cases "nothrow_move T")
      case False
      have "throw_plan T (ops ?W1 + j) = None" if "j < k" for j
      proof -
        have "throw_plan T (ops W + Suc j) = None"
          using Suc.prems(9) False that by auto
        then show ?thesis using False by simp
      qed
      then show ?thesis by blast
    qed simp
  qed (use Suc.prems in auto)
  moreover have "drop (s + Suc i) (slots ?sb1) = drop (s + Suc i) (slots sb)"
    by simp
  moreover have "overwrite (slots ?db1) (d + Suc i) (take k (drop (s + Suc i) (slots sb))) =
      overwrite (slots db) (d + i) (take (Suc k) (drop (s + i) (slots sb)))"
    using Suc.prems(6,7) overwrite_step[of "d + i" "take k (drop (Suc (s + i)) (slots sb))" "slots db" ?x]
    by (simp add: take_Suc_drop)
  moreover have "overwrite (slots ?sb1) (s + Suc i) (map (mv_slot T) (take k (drop (s + Suc i) (slots sb)))) =
      overwrite (slots sb) (s + i) (map (mv_slot T) (take (Suc k) (drop (s + i) (slots sb))))"
    using Suc.prems(6,7) overwrite_step[of "s + i" "map (mv_slot T) (take k (drop (Suc (s + i)) (slots sb)))" "slots sb" "mv_slot T ?x"]
    by (simp add: take_Suc_drop)
  ultimately show ?case
    using step by (auto simp add: ptr_add_def fun_eq_iff simp del: take_Suc_Cons)
qed

lemma move_assign_at_same:
  assumes "heap W a = Some b" "\<not> freed b" "s < length (slots b)" "d < length (slots b)"
    "slots b ! s \<noteq> Raw" "slots b ! d \<noteq> Raw" "throw_plan T (ops W) = None"
  shows "move_assign_at T (a, d) (a, s) W =
     Ok () (W\<lparr>heap := (heap W)(a \<mapsto>
                 b\<lparr>slots := (slots b)[d := slots b ! s, s := mv_slot T (slots b ! s)]\<rparr>),
              ops := Suc (ops W)\<rparr>)"
proof -
  obtain v where v: "slots b ! s = Live v"
    using assms(5) by (cases "slots b ! s") auto
  obtain u where u: "slots b ! d = Live u"
    using assms(6) by (cases "slots b ! d") auto
  show ?thesis
    using assms v u by (auto simp add: move_assign_at_def slot_at_def put_slot_def tick_def)
qed

lemma copy_assign_at_ok:
  assumes "heap W as = Some sb" "\<not> freed sb" "s < length (slots sb)" "slots sb ! s \<noteq> Raw"
    "heap W ad = Some db" "\<not> freed db" "d < length (slots db)" "slots db ! d \<noteq> Raw"
    "throw_plan T (ops W) = None"
  shows "copy_assign_at T (ad, d) (as, s) W =
     Ok () (W\<lparr>heap := (heap W)(ad \<mapsto> db\<lparr>slots := (slots db)[d := slots sb ! s]\<rparr>),
              ops := Suc (ops W)\<rparr>)"
proof -
  obtain v where v: "slots sb ! s = Live v"
    using assms(4) by (cases "slots sb ! s") auto
  obtain u where u: "slots db ! d = Live u"
    using assms(8) by (cases "slots db ! d") auto
  show ?thesis
    using assms v u by (auto simp add: copy_assign_at_def slot_at_def put_slot_def tick_def)
qed

lemma move_assign_from_local_ok:
  assumes "heap W a = Some b" "\<not> freed b" "d < length (slots b)" "slots b ! d \<noteq> Raw"
    "throw_plan T (ops W) = None"
  shows "move_assign_from_local T (a, d) v W =
     Ok () (W\<lparr>heap := (heap W)(a \<mapsto> b\<lparr>slots := (slots b)[d := Live v]\<rparr>),
              ops := Suc (ops W)\<rparr>)"
proof -
  obtain u where u: "slots b ! d = Live u"
    using assms(4) by (cases "slots b ! d") auto
  show ?thesis
    using assms u by (auto simp add: move_assign_from_local_def slot_at_def put_slot_def tick_def)
qed

lemma overwrite_same: "d < length ys \<Longrightarrow> overwrite ys d [ys ! d] = ys"
  by (simp add: overwrite_def id_take_nth_drop [symmetric])

lemma shift_left_step:
  assumes "Suc (d + k) < length ys"
  shows "overwrite (ys[d := ys ! Suc d, Suc d := z]) (Suc d)
           (take k (drop (Suc (Suc d)) ys) @ [w]) =
         overwrite ys d (take (Suc k) (drop (Suc d) ys) @ [w])"
proof -
  let ?zs = "take k (drop (Suc (Suc d)) ys) @ [w]"
  have len: "length ?zs = Suc k"
    using assms by simp
  have "overwrite (ys[d := ys ! Suc d, Suc d := z]) (Suc d) ?zs =
        overwrite (ys[d := ys ! Suc d]) (Suc d) ?zs"
    using assms len by (intro overwrite_inside) auto
  also have "\<dots> = overwrite ys d (ys ! Suc d # ?zs)"
    using assms len by (intro overwrite_step) auto
  also have "ys ! Suc d # ?zs = take (Suc k) (drop (Suc d) ys) @ [w]"
    using assms by (simp add: take_Suc_drop)
  finally show ?thesis .
qed

lemma move_loop_shift_left:
  assumes "heap W a = Some b" "\<not> freed b" "d + k < length (slots b)"
    "\<forall>j\<le>k. slots b ! (d + j) \<noteq> Raw"
    "\<forall>j<k. throw_plan T (ops W + j) = None"
  shows "move_loop T (a, Suc d) (a, d) k W =
     Ok () (W\<lparr>heap := (heap W)(a \<mapsto>
                 b\<lparr>slots := overwrite (slots b) d
                     (take k (drop (Suc d) (slots b)) @
                      [if k = 0 then slots b ! d else mv_slot T (slots b ! (d + k))])\<rparr>),
              ops := ops W + k\<rparr>)"
  using assms
proof (induction k arbitrary: d W b)
  case 0
  then show ?case by (simp add: overwrite_same map_upd_triv)
next
  case (Suc k)
  let ?x = "slots b ! Suc d"
  let ?b1 = "b\<lparr>slots := (slots b)[d := ?x, Suc d := mv_slot T ?x]\<rparr>"
  let ?W1 = "W\<lparr>heap := (heap W)(a \<mapsto> ?b1), ops := Suc (ops W)\<rparr>"
  have live: "slots b ! d \<noteq> Raw" "?x \<noteq> Raw" and np: "throw_plan T (ops W) = None"
    using Suc.prems(4)[rule_format, of 0] Suc.prems(4)[rule_format, of 1] Suc.prems(5) by auto
  have step: "move_assign_at T (a, d) (a, Suc d) W = Ok () ?W1"
    using Suc.prems live np by (intro move_assign_at_same) auto
  have "move_loop T (a, Suc (Suc d)) (a, Suc d) k ?W1 =
     Ok () (?W1\<lparr>heap := (heap ?W1)(a \<mapsto>
                 ?b1\<lparr>slots := overwrite (slots ?b1) (Suc d)
                     (take k (drop (Suc (Suc d)) (slots ?b1)) @
                      [if k = 0 then slots ?b1 ! Suc d else mv_slot T (slots ?b1 ! (Suc d + k))])\<rparr>),
              ops := ops ?W1 + k\<rparr>)"
  proof (rule Suc.IH)
    show "\<forall>j\<le>k. slots ?b1 ! (Suc d + j) \<noteq> Raw"
    proof (intro allI impI)
      fix j assume "j \<le> k"
      then have "slots b ! (d + Suc j) \<noteq> Raw"
        using Suc.prems(4) by auto
      then show "slots ?b1 ! (Suc d + j) \<noteq> Raw"
        using Suc.prems(3) live by (cases j) (auto simp: nth_list_update)
    qed
    show "\<forall>j<k. throw_plan T (ops ?W1 + j) = None"
    proof (intro allI impI)
      fix j assume "j < k"
      then have "throw_plan T (ops W + Suc j) = None"
        using Suc.prems(5) by auto
      then show "throw_plan T (ops ?W1 + j) = None" by simp
    qed
  qed (use Suc.prems in auto)
  moreover have "overwrite (slots ?b1) (Suc d)
                     (take k (drop (Suc (Suc d)) (slots ?b1)) @
                      [if k = 0 then slots ?b1 ! Suc d else mv_slot T (slots ?b1 ! (Suc d + k))]) =
      overwrite (slots b) d
                     (take (Suc k) (drop (Suc d) (slots b)) @
                      [mv_slot T (slots b ! (d + Suc k))])"
  proof -
    have "(if k = 0 then slots ?b1 ! Suc d else mv_slot T (slots ?b1 ! (Suc d + k))) =
        mv_slot T (slots b ! (d + Suc k))"
      using Suc.prems(3) by (auto simp: nth_list_update)
    moreover have "drop (Suc (Suc d)) (slots ?b1) = drop (Suc (Suc d)) (slots b)"
      by simp
    ultimately show ?thesis
      using shift_left_step[of d k "slots b" "mv_slot T ?x" "mv_slot T (slots b ! (d + Suc k))"]
        Suc.prems(3)
      by (simp del: take_Suc_Cons)
  qed
  ultimately show ?case
    using step by (auto simp add: ptr_add_def fun_eq_iff simp del: take_Suc_Cons)
qed

lemma shift_right_step:
  assumes "Suc (m + k) < length ys"
  shows "overwrite (ys[Suc (m + k) := ys ! (m + k), m + k := z]) m (w # take k (drop m ys)) =
         overwrite ys m (w # take (Suc k) (drop m ys))"
proof -
  let ?zs = "w # take k (drop m ys)"
  have len: "length ?zs = Suc k"
    using assms by simp
  have "overwrite (ys[Suc (m + k) := ys ! (m + k), m + k := z]) m ?zs =
        overwrite (ys[Suc (m + k) := ys ! (m + k)]) m ?zs"
    using assms len by (intro overwrite_inside) auto
  also have "\<dots> = (overwrite ys m ?zs)[m + length ?zs := ys ! (m + k)]"
    using assms by (intro nth_equalityI) (auto simp: nth_overwrite nth_list_update)
  also have "\<dots> = overwrite ys m (?zs @ [ys ! (m + k)])"
    using assms len by (intro overwrite_snoc) auto
  also have "?zs @ [ys ! (m + k)] = w # take (Suc k) (drop m ys)"
    using assms by (simp add: take_Suc_conv_app_nth)
  finally show ?thesis .
qed

lemma move_backward_loop_shift_right:
  assumes "heap W a = Some b" "\<not> freed b" "m + k < length (slots b)"
    "\<forall>j\<le>k. slots b ! (m + j) \<noteq> Raw"
    "\<forall>j<k. throw_plan T (ops W + j) = None"
  shows "move_backward_loop T (a, m + k) (a, Suc (m + k)) k W =
     Ok () (W\<lparr>heap := (heap W)(a \<mapsto>
                 b\<lparr>slots := overwrite (slots b) m
                     ((if k = 0 then slots b ! m else mv_slot T (slots b ! m)) #
                      take k (drop m (slots b)))\<rparr>),
              ops := ops W + k\<rparr>)"
  using assms
proof (induction k arbitrary: W b)
  case 0
  then show ?case by (simp add: overwrite_same map_upd_triv)
next
  case (Suc k)
  let ?x = "slots b ! (m + k)"
  let ?b1 = "b\<lparr>slots := (slots b)[Suc (m + k) := ?x, m + k := mv_slot T ?x]\<rparr>"
  let ?W1 = "W\<lparr>heap := (heap W)(a \<mapsto> ?b1), ops := Suc (ops W)\<rparr>"
  have live: "slots b ! Suc (m + k) \<noteq> Raw" "?x \<noteq> Raw" and np: "throw_plan T (ops W) = None"
    using Suc.prems(4)[rule_format, of "Suc k"] Suc.prems(4)[rule_format, of k] Suc.prems(5)
    by auto
  have step: "move_assign_at T (a, Suc (m + k)) (a, m + k) W = Ok () ?W1"
    using Suc.prems live np by (intro move_assign_at_same) auto
  have "move_backward_loop T (a, m + k) (a, Suc (m + k)) k ?W1 =
     Ok () (?W1\<lparr>heap := (heap ?W1)(a \<mapsto>
                 ?b1\<lparr>slots := overwrite (slots ?b1) m
                     ((if k = 0 then slots ?b1 ! m else mv_slot T (slots ?b1 ! m)) #
                      take k (drop m (slots ?b1)))\<rparr>),
              ops := ops ?W1 + k\<rparr>)"
  proof (rule Suc.IH)
    show "\<forall>j\<le>k. slots ?b1 ! (m + j) \<noteq> Raw"
    proof (intro allI impI)
      fix j assume "j \<le> k"
      then have "slots b ! (m + j) \<noteq> Raw"
        using Suc.prems(4) by auto
      then show "slots ?b1 ! (m + j) \<noteq> Raw"
        using Suc.prems(3) live \<open>j \<le> k\<close> by (auto simp: nth_list_update)
    qed
    show "\<forall>j<k. throw_plan T (ops ?W1 + j) = None"
    proof (intro allI impI)
      fix j assume "j < k"
      then have "throw_plan T (ops W + Suc j) = None"
        using Suc.prems(5) by auto
      then show "throw_plan T (ops ?W1 + j) = None" by simp
    qed
  qed (use Suc.prems in auto)
  moreover have "overwrite (slots ?b1) m
                     ((if k = 0 then slots ?b1 ! m else mv_slot T (slots ?b1 ! m)) #
                      take k (drop m (slots ?b1))) =
      overwrite (slots b) m (mv_slot T (slots b ! m) # take (Suc k) (drop m (slots b)))"
  proof -
    have "(if k = 0 then slots ?b1 ! m else mv_slot T (slots ?b1 ! m)) = mv_slot T (slots b ! m)"
      using Suc.prems(3) by (auto simp: nth_list_update)
    moreover have "take k (drop m (slots ?b1)) = take k (drop m (slots b))"
      using Suc.prems(3) by (intro nth_equalityI) (auto simp: nth_list_update)
    ultimately show ?thesis
      using shift_right_step[of m k "slots b" "mv_slot T ?x" "mv_slot T (slots b ! m)"]
        Suc.prems(3)
      by simp
  qed
  ultimately show ?case
    using step by (auto simp add: ptr_sub_def fun_eq_iff)
qed

lemma copy_assign_loop_ok:
  assumes "heap W (buffer_m (data_m r)) = Some sb" "\<not> freed sb"
    "heap W (buffer_m (data_m v)) = Some db" "\<not> freed db"
    "buffer_m (data_m r) \<noteq> buffer_m (data_m v)"
    "i + k \<le> size_m r" "size_m r \<le> capacity_m (data_m r)"
    "capacity_m (data_m r) \<le> length (slots sb)"
    "i + k \<le> capacity_m (data_m v)" "capacity_m (data_m v) \<le> length (slots db)"
    "\<forall>j<k. slots sb ! (i + j) \<noteq> Raw" "\<forall>j<k. slots db ! (i + j) \<noteq> Raw"
    "\<forall>j<k. throw_plan T (ops W + j) = None"
  shows "copy_assign_loop T v r i k W =
     Ok () (W\<lparr>heap := (heap W)(buffer_m (data_m v) \<mapsto>
                 db\<lparr>slots := overwrite (slots db) i (take k (drop i (slots sb)))\<rparr>),
              ops := ops W + k\<rparr>)"
  using assms
proof (induction k arbitrary: i W db)
  case 0
  then show ?case by (simp add: map_upd_triv)
next
  case (Suc k)
  let ?ad = "buffer_m (data_m v)" and ?as = "buffer_m (data_m r)"
  let ?db1 = "db\<lparr>slots := (slots db)[i := slots sb ! i]\<rparr>"
  let ?W1 = "W\<lparr>heap := (heap W)(?ad \<mapsto> ?db1), ops := Suc (ops W)\<rparr>"
  have live: "slots sb ! i \<noteq> Raw" "slots db ! i \<noteq> Raw" and np: "throw_plan T (ops W) = None"
    using Suc.prems(11)[rule_format, of 0] Suc.prems(12)[rule_format, of 0] Suc.prems(13)
    by auto
  have idx: "RawMemory_index (data_m v) i = Some (?ad, i)" "Vector_index r i = Some (?as, i)"
    using Suc.prems by (auto simp: RawMemory_index_def Vector_index_def)
  have step: "copy_assign_at T (?ad, i) (?as, i) W = Ok () ?W1"
    using Suc.prems live np by (intro copy_assign_at_ok[where sb=sb and db=db]) auto
  have "copy_assign_loop T v r (Suc i) k ?W1 =
     Ok () (?W1\<lparr>heap := (heap ?W1)(?ad \<mapsto>
                 ?db1\<lparr>slots := overwrite (slots ?db1) (Suc i) (take k (drop (Suc i) (slots sb)))\<rparr>),
              ops := ops ?W1 + k\<rparr>)"
  proof (rule Suc.IH)
    show "\<forall>j<k. slots sb ! (Suc i + j) \<noteq> Raw"
    proof (intro allI impI)
      fix j assume "j < k"
      then have "slots sb ! (i + Suc j) \<noteq> Raw"
        using Suc.prems(11) by auto
      then show "slots sb ! (Suc i + j) \<noteq> Raw" by simp
    qed
    show "\<forall>j<k. slots ?db1 ! (Suc i + j) \<noteq> Raw"
    proof (intro allI impI)
      fix j assume "j < k"
      then have "slots db ! (i + Suc j) \<noteq> Raw"
        using Suc.prems(12) by auto
      then show "slots ?db1 ! (Suc i + j) \<noteq> Raw" by simp
    qed
    show "\<forall>j<k. throw_plan T (ops ?W1 + j) = None"
    proof (intro allI impI)
      fix j assume "j < k"
      then have "throw_plan T (ops W + Suc j) = None"
        using Suc.prems(13) by auto
      then show "throw_plan T (ops ?W1 + j) = None" by simp
    qed
  qed (use Suc.prems in auto)
  moreover have "overwrite (slots ?db1) (Suc i) (take k (drop (Suc i) (slots sb))) =
      overwrite (slots db) i (take (Suc k) (drop i (slots sb)))"
    using Suc.prems overwrite_step[of i "take k (drop (Suc i) (slots sb))" "slots db" "slots sb ! i"]
    by (simp add: take_Suc_drop)
  ultimately show ?case
    using step idx by (auto simp add: fun_eq_iff simp del: take_Suc_Cons)
qed

lemma wf_vectorD:
  assumes "wf_vector W this" "capacity_m (data_m (vecs W this)) \<noteq> 0"
  obtains b where "heap W (buffer_m (data_m (vecs W this))) = Some b" "\<not> freed b"
    "length (slots b) = capacity_m (data_m (vecs W this))"
    "\<forall>j<size_m (vecs W this). slots b ! j \<noteq> Raw"
    "buffer_m (data_m (vecs W this)) \<noteq> nullptr"
    "buffer_m (data_m (vecs W this)) < next_addr W"
    "size_m (vecs W this) \<le> capacity_m (data_m (vecs W this))"
    "elems W this = take (size_m (vecs W this)) (slots b)"
proof -
  from assms have nn: "buffer_m (data_m (vecs W this)) \<noteq> nullptr"
    by (auto simp: wf_vector_def Let_def split: if_splits)
  with assms obtain b where b: "heap W (buffer_m (data_m (vecs W this))) = Some b"
    by (auto simp: wf_vector_def Let_def split: option.splits)
  with assms nn have *: "\<not> freed b" "length (slots b) = capacity_m (data_m (vecs W this))"
    "list_all (\<lambda>s. s \<noteq> Raw) (take (size_m (vecs W this)) (slots b))"
    "buffer_m (data_m (vecs W this)) < next_addr W"
    "size_m (vecs W this) \<le> capacity_m (data_m (vecs W this))"
    by (auto simp: wf_vector_def Let_def)
  from *(3) *(2) *(5) have "\<forall>j<size_m (vecs W this). slots b ! j \<noteq> Raw"
    by (auto simp: list_all_length)
  with b * nn show thesis
    by (intro that[of b]) (auto simp: elems_def)
qed

lemma UnusedEmplaceBack_ok:
  assumes "wf_vector W this" "size_m (vecs W this) < capacity_m (data_m (vecs W this))"
    "throw_plan T (ops W) = None"
    "heap W (buffer_m (data_m (vecs W this))) = Some b"
  shows "UnusedEmplaceBack T this arg W =
     Ok (buffer_m (data_m (vecs W this)), size_m (vecs W this))
        (W\<lparr>heap := (heap W)(buffer_m (data_m (vecs W this)) \<mapsto>
                  b\<lparr>slots := (slots b)[size_m (vecs W this) := Live arg]\<rparr>),
           ops := Suc (ops W),
           vecs := (vecs W)(this := (vecs W this)\<lparr>size_m := Suc (size_m (vecs W this))\<rparr>)\<rparr>)"
proof -
  from assms(1,2) obtain b' where b': "heap W (buffer_m (data_m (vecs W this))) = Some b'" "\<not> freed b'"
    "length (slots b') = capacity_m (data_m (vecs W this))"
    by (elim wf_vectorD) auto
  with assms(4) have b: "\<not> freed b" "length (slots b) = capacity_m (data_m (vecs W this))"
    by auto
  have c: "construct_at T (buffer_m (data_m (vecs W this)), size_m (vecs W this)) arg W =
     Ok () (W\<lparr>heap := (heap W)(buffer_m (data_m (vecs W this)) \<mapsto>
                  b\<lparr>slots := (slots b)[size_m (vecs W this) := Live arg]\<rparr>),
           ops := Suc (ops W)\<rparr>)"
    using assms b by (intro construct_at_ok) auto
  show ?thesis
    using assms(2) c
    by (simp add: UnusedEmplaceBack_def Let_def RawMemory_plus_def RawMemory_index_def)
qed

lemma UnusedEmplaceBack_throw:
  assumes "wf_vector W this" "size_m (vecs W this) < capacity_m (data_m (vecs W this))"
    "throw_plan T (ops W) = Some e"
  shows "UnusedEmplaceBack T this arg W = Throw e (W\<lparr>ops := Suc (ops W)\<rparr>)"
proof -
  from assms(1,2) obtain b where b: "heap W (buffer_m (data_m (vecs W this))) = Some b" "\<not> freed b"
    "length (slots b) = capacity_m (data_m (vecs W this))"
    by (elim wf_vectorD) auto
  have c: "construct_at T (buffer_m (data_m (vecs W this)), size_m (vecs W this)) arg W =
     Throw e (W\<lparr>ops := Suc (ops W)\<rparr>)"
    using assms b by (intro construct_at_throw[where b=b]) auto
  show ?thesis
    using assms(2) c
    by (simp add: UnusedEmplaceBack_def Let_def RawMemory_plus_def RawMemory_index_def)
qed

section \<open>Comparison operators\<close>

text \<open>
  C1.  \<^verbatim>\<open>operator==\<close> on two vectors is true exactly when both hold the same buffer
  (same address, same capacity) and the same element count; no element is read.
  \<^verbatim>\<open>operator!=\<close> is true exactly when address, capacity and element count all
  differ, so it is true only when buffer identity and element count both differ.  For
  two vectors of equal size in different buffers both operators return false:
  \<^verbatim>\<open>operator!=\<close> is not the negation of \<^verbatim>\<open>operator==\<close>.
\<close>

theorem Vector_comparison_by_buffer_identity:
  "(Vector_eq lhs rhs \<longleftrightarrow>
      buffer_m (data_m lhs) = buffer_m (data_m rhs) \<and>
      capacity_m (data_m lhs) = capacity_m (data_m rhs) \<and>
      size_m lhs = size_m rhs) \<and>
   (Vector_ne lhs rhs \<longleftrightarrow>
      buffer_m (data_m lhs) \<noteq> buffer_m (data_m rhs) \<and>
      capacity_m (data_m lhs) \<noteq> capacity_m (data_m rhs) \<and>
      size_m lhs \<noteq> size_m rhs) \<and>
   (Vector_ne lhs rhs \<longrightarrow>
      \<not> (buffer_m (data_m lhs) = buffer_m (data_m rhs) \<and>
         capacity_m (data_m lhs) = capacity_m (data_m rhs)) \<and>
      size_m lhs \<noteq> size_m rhs) \<and>
   (size_m lhs = size_m rhs \<and> buffer_m (data_m lhs) \<noteq> buffer_m (data_m rhs) \<longrightarrow>
      \<not> Vector_eq lhs rhs \<and> \<not> Vector_ne lhs rhs)"
  by (auto simp: Vector_eq_def Vector_ne_def RawMemory_eq_def RawMemory_ne_def
      Data_def Size_def Capacity_def GetAddress_def)

theorem Vector_comparison_by_buffer_identity_witness:
  "Vector_ne \<lparr>data_m = \<lparr>buffer_m = 1, capacity_m = 2\<rparr>, size_m = 1\<rparr>
             \<lparr>data_m = \<lparr>buffer_m = 2, capacity_m = 3\<rparr>, size_m = 3\<rparr> \<and>
   \<not> Vector_eq \<lparr>data_m = \<lparr>buffer_m = 1, capacity_m = 3\<rparr>, size_m = 3\<rparr>
               \<lparr>data_m = \<lparr>buffer_m = 2, capacity_m = 3\<rparr>, size_m = 3\<rparr> \<and>
   \<not> Vector_ne \<lparr>data_m = \<lparr>buffer_m = 1, capacity_m = 3\<rparr>, size_m = 3\<rparr>
               \<lparr>data_m = \<lparr>buffer_m = 2, capacity_m = 3\<rparr>, size_m = 3\<rparr>"
  using Vector_comparison_by_buffer_identity
      [of "\<lparr>data_m = \<lparr>buffer_m = 1, capacity_m = 2\<rparr>, size_m = 1\<rparr>"
          "\<lparr>data_m = \<lparr>buffer_m = 2, capacity_m = 3\<rparr>, size_m = 3\<rparr>"]
    Vector_comparison_by_buffer_identity
      [of "\<lparr>data_m = \<lparr>buffer_m = 1, capacity_m = 3\<rparr>, size_m = 3\<rparr>"
          "\<lparr>data_m = \<lparr>buffer_m = 2, capacity_m = 3\<rparr>, size_m = 3\<rparr>"]
  by simp

lemma wf_world_of:
  "xs \<noteq> [] \<Longrightarrow> n \<le> length xs \<Longrightarrow> list_all (\<lambda>s. s \<noteq> Raw) (take n xs) \<Longrightarrow>
   wf_vector (world_of xs n) 0"
  by (simp add: wf_vector_def world_of_def nullptr_def)

section \<open>Appending without relocation\<close>

text \<open>
  C9.  For a well-formed vector with size below capacity, \<^verbatim>\<open>EmplaceBack\<close> constructs
  the value in slot \<open>size\<close> of the existing buffer and then increments the size, and
  returns a reference to that slot; if the element constructor throws, the exception
  leaves the call with the members of every vector and the whole heap as before.
\<close>

theorem EmplaceBack_in_place:
  assumes "wf_vector W this" "size_m (vecs W this) < capacity_m (data_m (vecs W this))"
  shows "(throw_plan T (ops W) = None \<longrightarrow>
            (\<exists>W'. EmplaceBack T this arg W =
                     Ok (buffer_m (data_m (vecs W this)), size_m (vecs W this)) W' \<and>
                   vecs W' = (vecs W)(this := (vecs W this)\<lparr>size_m := Suc (size_m (vecs W this))\<rparr>) \<and>
                   slot_at W' (buffer_m (data_m (vecs W this)), size_m (vecs W this)) =
                     Some (Live arg) \<and>
                   elems W' this = elems W this @ [Live arg])) \<and>
         (\<forall>e. throw_plan T (ops W) = Some e \<longrightarrow>
            (\<exists>W'. EmplaceBack T this arg W = Throw e W' \<and>
                   vecs W' = vecs W \<and> heap W' = heap W \<and> elems W' this = elems W this))"
proof (intro conjI impI allI)
  assume np: "throw_plan T (ops W) = None"
  from assms obtain b where b: "heap W (buffer_m (data_m (vecs W this))) = Some b" "\<not> freed b"
    "length (slots b) = capacity_m (data_m (vecs W this))"
    "elems W this = take (size_m (vecs W this)) (slots b)"
    by (elim wf_vectorD) auto
  have "UnusedEmplaceBack T this arg W =
     Ok (buffer_m (data_m (vecs W this)), size_m (vecs W this))
        (W\<lparr>heap := (heap W)(buffer_m (data_m (vecs W this)) \<mapsto>
                  b\<lparr>slots := (slots b)[size_m (vecs W this) := Live arg]\<rparr>),
           ops := Suc (ops W),
           vecs := (vecs W)(this := (vecs W this)\<lparr>size_m := Suc (size_m (vecs W this))\<rparr>)\<rparr>)"
    using assms np b(1) by (rule UnusedEmplaceBack_ok)
  then show "\<exists>W'. EmplaceBack T this arg W =
                     Ok (buffer_m (data_m (vecs W this)), size_m (vecs W this)) W' \<and>
                   vecs W' = (vecs W)(this := (vecs W this)\<lparr>size_m := Suc (size_m (vecs W this))\<rparr>) \<and>
                   slot_at W' (buffer_m (data_m (vecs W this)), size_m (vecs W this)) =
                     Some (Live arg) \<and>
                   elems W' this = elems W this @ [Live arg]"
    using assms(2) b
    by (simp add: EmplaceBack_def Capacity_def slot_at_def elems_def take_Suc_conv_app_nth)
next
  fix e assume "throw_plan T (ops W) = Some e"
  with assms have "UnusedEmplaceBack T this arg W = Throw e (W\<lparr>ops := Suc (ops W)\<rparr>)"
    by (rule UnusedEmplaceBack_throw)
  then show "\<exists>W'. EmplaceBack T this arg W = Throw e W' \<and>
                   vecs W' = vecs W \<and> heap W' = heap W \<and> elems W' this = elems W this"
    using assms(2) by (simp add: EmplaceBack_def Capacity_def elems_def split: option.splits)
qed

theorem EmplaceBack_in_place_witness:
  "wf_vector (world_of [Live 5, Raw] 1) 0 \<and>
   (\<exists>W'. EmplaceBack int_type 0 7 (world_of [Live 5, Raw] 1) = Ok (1, 1) W' \<and>
          size_m (vecs W' 0) = 2 \<and> elems W' 0 = [Live 5, Live 7]) \<and>
   (\<exists>W'. EmplaceBack (throwing_type 0) 0 7 (world_of [Live 5, Raw] 1) =
            Throw StdException W' \<and>
          size_m (vecs W' 0) = 1 \<and> elems W' 0 = [Live 5])"
proof -
  have wf: "wf_vector (world_of [Live 5, Raw] 1) 0"
    by (simp add: wf_world_of)
  have lt: "size_m (vecs (world_of [Live 5, Raw] 1) 0) <
            capacity_m (data_m (vecs (world_of [Live 5, Raw] 1) 0))"
    by (simp add: world_of_def)
  have e: "elems (world_of [Live 5, Raw] 1) 0 = [Live 5]"
    by (simp add: elems_def world_of_def)
  show ?thesis
    using wf e EmplaceBack_in_place [OF wf lt, of int_type 7]
      EmplaceBack_in_place [OF wf lt, of "throwing_type 0" 7]
    by (auto simp: int_type_def throwing_type_def world_of_def)
qed

section \<open>Move assignment\<close>

text \<open>
  C3.  Move assignment of \<^verbatim>\<open>RawMemory\<close> between two distinct blocks of equal
  capacity: the guard \<^verbatim>\<open>*this != rhs\<close> asks for capacity and address to differ
  both, so it is false, nothing is transferred and the source is not reset.
\<close>

theorem RawMemory_move_assign_equal_capacity:
  "RawMemory_move_assign 0 1 two_blocks 0 = \<lparr>buffer_m = 1, capacity_m = 4\<rparr> \<and>
   RawMemory_move_assign 0 1 two_blocks 1 = \<lparr>buffer_m = 2, capacity_m = 4\<rparr>"
  by (simp add: RawMemory_move_assign_def two_blocks_def RawMemory_ne_def Capacity_def
      GetAddress_def)

text \<open>
  C4.  Move assignment of \<^verbatim>\<open>Vector\<close> never resets the size of the source: after
  moving a three-element vector into another the source still reports size \<open>3\<close>.
  Between two vectors of equal capacity the buffers are not exchanged either, and the
  destination keeps its own elements.
\<close>

theorem Vector_assign_move_source_not_emptied:
  "(\<exists>W'. Vector_assign_move 0 1 (two_vectors [Live 9] 1 [Live 1, Live 2, Live 3] 3) = Ok () W' \<and>
      vecs W' 0 = \<lparr>data_m = \<lparr>buffer_m = 2, capacity_m = 3\<rparr>, size_m = 3\<rparr> \<and>
      Size (vecs W' 1) = 3) \<and>
   (\<exists>W'. Vector_assign_move 0 1 (two_vectors [Live 7, Live 8] 2 [Live 1, Live 2] 2) = Ok () W' \<and>
      elems W' 0 = [Live 7, Live 8] \<and> elems W' 1 = [Live 1, Live 2])"
  by (simp add: Vector_assign_move_def RawMemory_move_assign_def two_vectors_def
      RawMemory_ne_def Capacity_def GetAddress_def Size_def Let_def nullptr_def elems_def)

text \<open>
  C5.  Two vectors that satisfy the invariant; after move assignment the source has
  size \<open>3\<close> and capacity \<open>0\<close>.
\<close>

theorem Vector_assign_move_breaks_invariant:
  "wf_vector (two_vectors [Live 9] 1 [Live 1, Live 2, Live 3] 3) 0 \<and>
   wf_vector (two_vectors [Live 9] 1 [Live 1, Live 2, Live 3] 3) 1 \<and>
   (\<exists>W'. Vector_assign_move 0 1 (two_vectors [Live 9] 1 [Live 1, Live 2, Live 3] 3) = Ok () W' \<and>
      Size (vecs W' 1) = 3 \<and> Capacity (data_m (vecs W' 1)) = 0 \<and>
      \<not> Size (vecs W' 1) \<le> Capacity (data_m (vecs W' 1)))"
  by (simp add: Vector_assign_move_def RawMemory_move_assign_def two_vectors_def
      RawMemory_ne_def Capacity_def GetAddress_def Size_def Let_def nullptr_def wf_vector_def)


section \<open>Erase\<close>

lemma overwrite_last_update:
  "d + Suc (length zs) \<le> length ys \<Longrightarrow>
   (overwrite ys d (zs @ [x]))[d + length zs := z] = overwrite ys d (zs @ [z])"
  by (rule nth_equalityI) (auto simp: nth_overwrite nth_list_update nth_append)

lemma take_overwrite_prefix:
  "d + length zs \<le> length ys \<Longrightarrow> m \<le> length zs \<Longrightarrow>
   take (d + m) (overwrite ys d zs) = take d ys @ take m zs"
  by (simp add: overwrite_def)

lemma wf_vector_size_le:
  "wf_vector W this \<Longrightarrow> size_m (vecs W this) \<le> capacity_m (data_m (vecs W this))"
  by (simp add: wf_vector_def Let_def)

lemma Erase_inside:
  assumes wf: "wf_vector W this" and i: "i < size_m (vecs W this)"
    and np: "\<forall>k. throw_plan T (ops W + k) = None"
    and b: "heap W (buffer_m (data_m (vecs W this))) = Some b"
  shows "Erase T this (buffer_m (data_m (vecs W this)), i) W =
     Ok (buffer_m (data_m (vecs W this)), i)
        (W\<lparr>heap := (heap W)(buffer_m (data_m (vecs W this)) \<mapsto>
                  b\<lparr>slots := overwrite (slots b) i
                      (take (size_m (vecs W this) - Suc i) (drop (Suc i) (slots b)) @ [Raw])\<rparr>),
           ops := ops W + (size_m (vecs W this) - Suc i),
           vecs := (vecs W)(this := (vecs W this)\<lparr>size_m := size_m (vecs W this) - 1\<rparr>)\<rparr>)"
proof -
  let ?v = "vecs W this"
  let ?a = "buffer_m (data_m ?v)" and ?n = "size_m ?v" and ?c = "capacity_m (data_m ?v)"
  let ?k = "?n - Suc i"
  from wf i obtain b' where b': "heap W ?a = Some b'" "\<not> freed b'" "length (slots b') = ?c"
    "\<forall>j<?n. slots b' ! j \<noteq> Raw" "?n \<le> ?c"
    using wf_vector_size_le[OF wf] by (elim wf_vectorD) auto
  with b have bp: "\<not> freed b" "length (slots b) = ?c" "\<forall>j<?n. slots b ! j \<noteq> Raw" "?n \<le> ?c"
    by auto
  let ?x = "if ?k = 0 then slots b ! i else mv_slot T (slots b ! (i + ?k))"
  let ?S1 = "overwrite (slots b) i (take ?k (drop (Suc i) (slots b)) @ [?x])"
  let ?W1 = "W\<lparr>heap := (heap W)(?a \<mapsto> b\<lparr>slots := ?S1\<rparr>), ops := ops W + ?k\<rparr>"
  have ik: "i + ?k = ?n - 1" "i + ?k < ?n"
    using i by auto
  have mv: "move_loop T (?a, Suc i) (?a, i) ?k W = Ok () ?W1"
  proof (rule move_loop_shift_left)
    show "\<forall>j\<le>?k. slots b ! (i + j) \<noteq> Raw"
      using bp(3) i by auto
  qed (use b bp i np in auto)
  have xl: "?x \<noteq> Raw"
    using bp(3) ik i by auto
  have len1: "length ?S1 = length (slots b)"
    using i bp by (intro length_overwrite) auto
  have S1x: "?S1 ! (?n - 1) = ?x"
    using i bp ik by (subst nth_overwrite) (auto simp: nth_append)
  let ?v1 = "?v\<lparr>size_m := ?n - 1\<rparr>"
  let ?W1' = "?W1\<lparr>vecs := (vecs ?W1)(this := ?v1)\<rparr>"
  have d: "destroy_at T (?a, ?n - 1) ?W1' =
     Ok () (?W1'\<lparr>heap := (heap ?W1')(?a \<mapsto> (b\<lparr>slots := ?S1\<rparr>)\<lparr>slots := (slots (b\<lparr>slots := ?S1\<rparr>))[?n - 1 := Raw]\<rparr>)\<rparr>)"
  proof (rule destroy_at_ok)
    show "trivially_destructible T \<or> slots (b\<lparr>slots := ?S1\<rparr>) ! (?n - 1) \<noteq> Raw"
      using S1x xl by simp
    show "?n - 1 < length (slots (b\<lparr>slots := ?S1\<rparr>))"
      using len1 bp i by simp
  qed (use bp in auto)
  have fin: "?S1[?n - 1 := Raw] = overwrite (slots b) i (take ?k (drop (Suc i) (slots b)) @ [Raw])"
    using overwrite_last_update[of i "take ?k (drop (Suc i) (slots b))" "slots b" ?x Raw] i bp ik
    by simp
  have pb: "PopBack T this ?W1 =
     Ok () (?W1'\<lparr>heap := (heap ?W1')(?a \<mapsto> b\<lparr>slots := overwrite (slots b) i (take ?k (drop (Suc i) (slots b)) @ [Raw])\<rparr>)\<rparr>)"
    using d fin i bp
    by (simp add: PopBack_def Let_def RawMemory_index_def)
  have e: "Vector_end ?v = Some (?a, ?n)"
    using bp by (simp add: Vector_end_def RawMemory_plus_def)
  show ?thesis
    using e i mv pb
    by (auto simp add: Erase_def Let_def Vector_begin_def GetAddress_def ptr_diff_def ptr_add_def
        move_range_def fun_eq_iff)
qed


text \<open>
  C8.  For a well-formed vector of size \<open>n\<close>, a position \<open>i < n\<close> and element
  operations that do not throw, \<^verbatim>\<open>Erase\<close> returns normally; the size is \<open>n - 1\<close>,
  the buffer is the same, the elements before \<open>i\<close> are unchanged and those after \<open>i\<close>
  follow them in their order.  The iterator returned points at slot \<open>i\<close>, which holds
  the element that followed the erased one, or is \<^verbatim>\<open>end()\<close> when the last element
  was erased.
\<close>

theorem Erase_shifts_left:
  assumes "wf_vector W this" "i < size_m (vecs W this)"
    "\<forall>k. throw_plan T (ops W + k) = None"
  shows "\<exists>W'. Erase T this (buffer_m (data_m (vecs W this)), i) W =
                 Ok (buffer_m (data_m (vecs W this)), i) W' \<and>
               size_m (vecs W' this) = size_m (vecs W this) - 1 \<and>
               data_m (vecs W' this) = data_m (vecs W this) \<and>
               elems W' this = take i (elems W this) @ drop (Suc i) (elems W this) \<and>
               (if Suc i = size_m (vecs W this)
                then Vector_end (vecs W' this) = Some (buffer_m (data_m (vecs W this)), i)
                else slot_at W' (buffer_m (data_m (vecs W this)), i) =
                       Some (elems W this ! Suc i))"
proof -
  let ?v = "vecs W this"
  let ?a = "buffer_m (data_m ?v)" and ?n = "size_m ?v" and ?c = "capacity_m (data_m ?v)"
  let ?k = "?n - Suc i"
  from assms(1,2) obtain b where b: "heap W ?a = Some b" "\<not> freed b" "length (slots b) = ?c"
    "?n \<le> ?c" "elems W this = take ?n (slots b)"
    using wf_vector_size_le[OF assms(1)] by (elim wf_vectorD) auto
  let ?S = "overwrite (slots b) i (take ?k (drop (Suc i) (slots b)) @ [Raw])"
  let ?W' = "W\<lparr>heap := (heap W)(?a \<mapsto> b\<lparr>slots := ?S\<rparr>),
           ops := ops W + ?k,
           vecs := (vecs W)(this := ?v\<lparr>size_m := ?n - 1\<rparr>)\<rparr>"
  have r: "Erase T this (?a, i) W = Ok (?a, i) ?W'"
    using assms b(1) by (rule Erase_inside)
  have tk: "length (take ?k (drop (Suc i) (slots b)) @ [Raw]) = Suc ?k"
    using b assms(2) by simp
  have len: "length ?S = length (slots b)"
    using b assms(2) by (intro length_overwrite) auto
  have "take (i + ?k) ?S = take i (slots b) @ take ?k (take ?k (drop (Suc i) (slots b)) @ [Raw])"
    using b assms(2) tk by (intro take_overwrite_prefix) auto
  then have el: "take (?n - 1) ?S = take i (slots b) @ take ?k (drop (Suc i) (slots b))"
    using assms(2) b by (simp add: Suc_diff_Suc)
  have e1: "elems ?W' this = take i (elems W this) @ drop (Suc i) (elems W this)"
    using el b assms(2) by (simp add: elems_def drop_take min_def)
  have e2: "Vector_end (vecs ?W' this) = Some (?a, i)" if "Suc i = ?n"
    using that[symmetric] b by (simp add: Vector_end_def RawMemory_plus_def)
  have e3: "slot_at ?W' (?a, i) = Some (elems W this ! Suc i)" if "Suc i \<noteq> ?n"
  proof -
    have "Suc i < ?n" using that assms(2) by simp
    then have "?S ! i = slots b ! Suc i"
      using b by (subst nth_overwrite) (auto simp: nth_append)
    then show ?thesis
      using b len assms(2) \<open>Suc i < ?n\<close> by (simp add: slot_at_def)
  qed
  show ?thesis
    using r e1 e2 e3 by (intro exI[of _ ?W']) auto
qed

theorem Erase_shifts_left_witness:
  "wf_vector (world_of [Live 10, Live 20, Live 30, Raw] 3) 0 \<and>
   (\<exists>W'. Erase int_type 0 (1, 1) (world_of [Live 10, Live 20, Live 30, Raw] 3) = Ok (1, 1) W' \<and>
          size_m (vecs W' 0) = 2 \<and> elems W' 0 = [Live 10, Live 30] \<and>
          slot_at W' (1, 1) = Some (Live 30))"
proof -
  have wf: "wf_vector (world_of [Live 10, Live 20, Live 30, Raw] 3) 0"
    by (simp add: wf_world_of)
  have lt: "1 < size_m (vecs (world_of [Live 10, Live 20, Live 30, Raw] 3) 0)"
    by (simp add: world_of_def)
  have np: "\<forall>k. throw_plan int_type (ops (world_of [Live 10, Live 20, Live 30, Raw] 3) + k) = None"
    by (simp add: int_type_def)
  have e: "elems (world_of [Live 10, Live 20, Live 30, Raw] 3) 0 = [Live 10, Live 20, Live 30]"
    by (simp add: elems_def world_of_def)
  show ?thesis
    using wf e Erase_shifts_left [OF wf lt np]
    by (auto simp: world_of_def)
qed

section \<open>Insertion with relocation\<close>

lemma RawMemory_ctor_nonzero:
  "c \<noteq> 0 \<Longrightarrow>
   RawMemory_ctor c W =
     (\<lparr>buffer_m = next_addr W, capacity_m = c\<rparr>,
      W\<lparr>heap := (heap W)(next_addr W \<mapsto> \<lparr>freed = False, slots = replicate c Raw\<rparr>),
        next_addr := Suc (next_addr W)\<rparr>)"
  by (simp add: RawMemory_ctor_def Allocate_def)

lemma RawMemory_dtor_ok:
  "heap W a = Some b \<Longrightarrow> \<not> freed b \<Longrightarrow> a \<noteq> nullptr \<Longrightarrow>
   RawMemory_dtor \<lparr>buffer_m = a, capacity_m = c\<rparr> W =
     Ok () (W\<lparr>heap := (heap W)(a \<mapsto> b\<lparr>freed := True\<rparr>)\<rparr>)"
  by (simp add: RawMemory_dtor_def Deallocate_def operator_delete_def)

lemma RawMemory_dtor_null:
  "RawMemory_dtor \<lparr>buffer_m = nullptr, capacity_m = c\<rparr> W = Ok () W"
  by (simp add: RawMemory_dtor_def Deallocate_def)

lemma relocate_n_zero: "relocate_n T p 0 q W = Ok () W"
  by (simp add: relocate_n_def uninitialized_move_n_def uninitialized_copy_n_def)

lemma relocate_n_ok:
  assumes "heap W as = Some sb" "\<not> freed sb" "heap W ad = Some db" "\<not> freed db" "as \<noteq> ad"
    "s + k \<le> length (slots sb)" "d + k \<le> length (slots db)"
    "\<forall>j<k. slots sb ! (s + j) \<noteq> Raw"
    "\<forall>j. throw_plan T (ops W + j) = None"
  shows "\<exists>W' sb'. relocate_n T (as, s) k (ad, d) W = Ok () W' \<and>
     heap W' = (heap W)(ad \<mapsto> db\<lparr>slots := overwrite (slots db) d (take k (drop s (slots sb)))\<rparr>,
                        as \<mapsto> sb') \<and>
     \<not> freed sb' \<and> length (slots sb') = length (slots sb) \<and>
     (\<forall>j<length (slots sb). (slots sb' ! j = Raw) = (slots sb ! j = Raw)) \<and>
     (\<forall>j<length (slots sb). j < s \<or> s + k \<le> j \<longrightarrow> slots sb' ! j = slots sb ! j) \<and>
     vecs W' = vecs W \<and> next_addr W' = next_addr W \<and> ops W \<le> ops W'"
proof (cases "relocate_by_move T")
  case True
  let ?sb' = "sb\<lparr>slots := overwrite (slots sb) s (map (mv_slot T) (take k (drop s (slots sb))))\<rparr>"
  have "uninitialized_move_loop T (as, s) (ad, d) 0 k W =
     Ok () (W\<lparr>heap := (heap W)
                 (ad \<mapsto> db\<lparr>slots := overwrite (slots db) (d + 0) (take k (drop (s + 0) (slots sb)))\<rparr>,
                  as \<mapsto> sb\<lparr>slots := overwrite (slots sb) (s + 0)
                                        (map (mv_slot T) (take k (drop (s + 0) (slots sb))))\<rparr>),
              ops := (if nothrow_move T then ops W else ops W + k)\<rparr>)"
    using assms by (intro uninit_move_ok) auto
  moreover have "(slots ?sb' ! j = Raw) = (slots sb ! j = Raw)" if "j < length (slots sb)" for j
    using that assms(6) by (auto simp: nth_overwrite)
  moreover have "slots ?sb' ! j = slots sb ! j" if "j < length (slots sb)" "j < s \<or> s + k \<le> j" for j
    using that assms(6) by (auto simp: nth_overwrite)
  moreover have "length (slots ?sb') = length (slots sb)"
    using assms(6) by simp
  ultimately show ?thesis
    using True assms(2)
    by (intro exI[of _ "W\<lparr>heap := (heap W)
                 (ad \<mapsto> db\<lparr>slots := overwrite (slots db) d (take k (drop s (slots sb)))\<rparr>,
                  as \<mapsto> ?sb'),
              ops := (if nothrow_move T then ops W else ops W + k)\<rparr>"] exI[of _ ?sb'])
       (simp add: relocate_n_def uninitialized_move_n_def)
next
  case False
  have "uninitialized_copy_loop T (as, s) (ad, d) 0 k W =
     Ok () (W\<lparr>heap := (heap W)(ad \<mapsto>
                 db\<lparr>slots := overwrite (slots db) (d + 0) (take k (drop (s + 0) (slots sb)))\<rparr>),
              ops := ops W + k\<rparr>)"
    using assms by (intro uninit_copy_ok) auto
  moreover have "(heap W)(ad \<mapsto> x) = (heap W)(ad \<mapsto> x, as \<mapsto> sb)" for x
    using assms(1,5) by (auto simp: fun_eq_iff)
  ultimately show ?thesis
    using False assms(2)
    by (intro exI[of _ "W\<lparr>heap := (heap W)(ad \<mapsto>
                 db\<lparr>slots := overwrite (slots db) d (take k (drop s (slots sb)))\<rparr>),
              ops := ops W + k\<rparr>"] exI[of _ sb])
       (simp add: relocate_n_def uninitialized_copy_n_def)
qed


lemma overwrite_fresh_back:
  "n < c \<Longrightarrow> length xs = n \<Longrightarrow>
   overwrite ((replicate c Raw)[n := x]) 0 xs = xs @ [x] @ replicate (c - Suc n) Raw"
  by (rule nth_equalityI) (auto simp: nth_overwrite nth_list_update nth_append nth_Cons')

lemma RelocatedEmplaceBack_empty:
  assumes wf: "wf_vector W this" and full: "capacity_m (data_m (vecs W this)) = 0"
    and np: "\<forall>j. throw_plan T (ops W + j) = None"
  shows "RelocatedEmplaceBack T this arg W =
     Ok (next_addr W, 0)
        (W\<lparr>heap := (heap W)(next_addr W \<mapsto> \<lparr>freed = False, slots = [Live arg]\<rparr>),
           next_addr := Suc (next_addr W),
           ops := Suc (ops W),
           vecs := (vecs W)(this := \<lparr>data_m = \<lparr>buffer_m = next_addr W, capacity_m = 1\<rparr>,
                                     size_m = 1\<rparr>)\<rparr>)"
proof -
  let ?v = "vecs W this"
  have n0: "size_m ?v = 0" and a0: "buffer_m (data_m ?v) = nullptr"
    using wf full by (auto simp: wf_vector_def Let_def split: if_splits)
  let ?F = "\<lparr>freed = False, slots = replicate 1 (Raw :: 'a slot)\<rparr>"
  let ?W1 = "W\<lparr>heap := (heap W)(next_addr W \<mapsto> ?F), next_addr := Suc (next_addr W)\<rparr>"
  have c: "construct_at T (next_addr W, 0) arg ?W1 =
     Ok () (?W1\<lparr>heap := (heap ?W1)(next_addr W \<mapsto> ?F\<lparr>slots := (slots ?F)[0 := Live arg]\<rparr>),
              ops := Suc (ops ?W1)\<rparr>)"
    using np[rule_format, of 0] by (intro construct_at_ok) auto
  have v: "?v = \<lparr>data_m = \<lparr>buffer_m = nullptr, capacity_m = 0\<rparr>, size_m = 0\<rparr>"
    using n0 a0 full by (cases ?v, cases "data_m ?v") auto
  show ?thesis
    using c n0 a0 full
    apply (simp add: RelocatedEmplaceBack_def Let_def RawMemory_ctor_nonzero GetAddress_def
        ptr_add_def relocate_n_zero catch_std_rethrow_def RawMemory_Swap_def
        RawMemory_index_def)
    apply (subst v)
    apply (simp add: RawMemory_dtor_null)
    apply (auto simp: fun_eq_iff)
    done
qed


lemma Vector_update_all:
  "(v :: Vector)\<lparr>data_m := d, size_m := n\<rparr> = \<lparr>data_m = d, size_m = n\<rparr>"
  by simp

lemma RawMemory_update_all:
  "(m :: RawMemory)\<lparr>buffer_m := a, capacity_m := c\<rparr> = \<lparr>buffer_m = a, capacity_m = c\<rparr>"
  by simp

lemma RelocatedEmplaceBack_full:
  assumes wf: "wf_vector W this"
    and full: "size_m (vecs W this) = capacity_m (data_m (vecs W this))"
    and pos: "0 < size_m (vecs W this)"
    and np: "\<forall>j. throw_plan T (ops W + j) = None"
  shows "\<exists>W' blk. RelocatedEmplaceBack T this arg W = Ok (next_addr W, size_m (vecs W this)) W' \<and>
     vecs W' = (vecs W)(this := \<lparr>data_m = \<lparr>buffer_m = next_addr W,
                                             capacity_m = 2 * size_m (vecs W this)\<rparr>,
                                  size_m = Suc (size_m (vecs W this))\<rparr>) \<and>
     heap W' = (heap W)
        (next_addr W \<mapsto> \<lparr>freed = False,
            slots = elems W this @ [Live arg] @ replicate (size_m (vecs W this) - 1) Raw\<rparr>,
         buffer_m (data_m (vecs W this)) \<mapsto> blk) \<and>
     freed blk \<and> next_addr W' = Suc (next_addr W)"
proof -
  let ?v = "vecs W this"
  let ?a = "buffer_m (data_m ?v)" and ?n = "size_m ?v"
  let ?a' = "next_addr W" and ?c' = "?n * 2"
  from wf full pos obtain b where b: "heap W ?a = Some b" "\<not> freed b" "length (slots b) = ?n"
    "\<forall>j<?n. slots b ! j \<noteq> Raw" "?a \<noteq> nullptr" "?a < ?a'" "elems W this = take ?n (slots b)"
    by (elim wf_vectorD) auto
  let ?F = "\<lparr>freed = False, slots = replicate ?c' (Raw :: 'a slot)\<rparr>"
  let ?W1 = "W\<lparr>heap := (heap W)(?a' \<mapsto> ?F), next_addr := Suc ?a'\<rparr>"
  let ?F1 = "?F\<lparr>slots := (slots ?F)[?n := Live arg]\<rparr>"
  let ?W2 = "?W1\<lparr>heap := (heap ?W1)(?a' \<mapsto> ?F1), ops := Suc (ops ?W1)\<rparr>"
  have ctor: "RawMemory_ctor (if ?n = 0 then 1 else ?n * 2) W =
      (\<lparr>buffer_m = ?a', capacity_m = ?c'\<rparr>, ?W1)"
    using pos by (simp add: RawMemory_ctor_nonzero)
  have c: "construct_at T (?a', ?n) arg ?W1 = Ok () ?W2"
    using np[rule_format, of 0] pos by (intro construct_at_ok) auto
  have "\<exists>W3 sb'. relocate_n T (?a, 0) ?n (?a', 0) ?W2 = Ok () W3 \<and>
     heap W3 = (heap ?W2)(?a' \<mapsto> ?F1\<lparr>slots := overwrite (slots ?F1) 0 (take ?n (drop 0 (slots b)))\<rparr>,
                        ?a \<mapsto> sb') \<and>
     \<not> freed sb' \<and> length (slots sb') = length (slots b) \<and>
     (\<forall>j<length (slots b). (slots sb' ! j = Raw) = (slots b ! j = Raw)) \<and>
     (\<forall>j<length (slots b). j < 0 \<or> 0 + ?n \<le> j \<longrightarrow> slots sb' ! j = slots b ! j) \<and>
     vecs W3 = vecs ?W2 \<and> next_addr W3 = next_addr ?W2 \<and> ops ?W2 \<le> ops W3"
  proof (rule relocate_n_ok)
    show "heap ?W2 ?a = Some b" using b by simp
    show "heap ?W2 ?a' = Some ?F1" by simp
    show "\<forall>j. throw_plan T (ops ?W2 + j) = None"
    proof
      fix j
      have "throw_plan T (ops W + Suc j) = None"
        using np by blast
      then show "throw_plan T (ops ?W2 + j) = None" by simp
    qed
  qed (use b pos in auto)
  then obtain W3 sb' where r: "relocate_n T (?a, 0) ?n (?a', 0) ?W2 = Ok () W3"
    and h3: "heap W3 = (heap ?W2)(?a' \<mapsto> ?F1\<lparr>slots := overwrite (slots ?F1) 0 (take ?n (slots b))\<rparr>,
                        ?a \<mapsto> sb')"
    and sb': "\<not> freed sb'" "length (slots sb') = ?n"
      "\<forall>j<?n. (slots sb' ! j = Raw) = (slots b ! j = Raw)"
    and f3: "vecs W3 = vecs W" "next_addr W3 = Suc ?a'"
    using b(3) by auto
  let ?blk = "sb'\<lparr>slots := overwrite (slots sb') 0 (replicate ?n Raw)\<rparr>"
  let ?W4 = "W3\<lparr>heap := (heap W3)(?a \<mapsto> ?blk)\<rparr>"
  have d: "destroy_n T (?a, 0) ?n W3 = Ok () ?W4"
  proof (rule destroy_n_ok)
    show "heap W3 ?a = Some sb'" using h3 by simp
    show "trivially_destructible T \<or> (\<forall>j<?n. slots sb' ! (0 + j) \<noteq> Raw)"
      using sb' b(4) by simp
  qed (use sb' in auto)
  let ?v1 = "\<lparr>data_m = \<lparr>buffer_m = ?a', capacity_m = ?c'\<rparr>, size_m = Suc ?n\<rparr>"
  let ?W5 = "?W4\<lparr>vecs := (vecs ?W4)(this := ?v1)\<rparr>"
  let ?W6 = "?W5\<lparr>heap := (heap ?W5)(?a \<mapsto> ?blk\<lparr>freed := True\<rparr>)\<rparr>"
  have dt: "RawMemory_dtor \<lparr>buffer_m = ?a, capacity_m = capacity_m (data_m ?v)\<rparr> ?W5 = Ok () ?W6"
    using sb' b(5) by (intro RawMemory_dtor_ok) auto
  have res: "RelocatedEmplaceBack T this arg W = Ok (?a', ?n) ?W6"
    using ctor c r d dt pos
    by (simp add: RelocatedEmplaceBack_def Let_def GetAddress_def ptr_add_def
        catch_std_rethrow_def RawMemory_Swap_def RawMemory_index_def
        Vector_update_all RawMemory_update_all)
  have sl: "overwrite (slots ?F1) 0 (take ?n (slots b)) =
      elems W this @ [Live arg] @ replicate (?n - 1) Raw"
    using overwrite_fresh_back[of ?n ?c' "take ?n (slots b)" "Live arg"] b pos
    by (simp add: mult_2_right)
  have "heap ?W6 = (heap W)
        (?a' \<mapsto> \<lparr>freed = False, slots = elems W this @ [Live arg] @ replicate (?n - 1) Raw\<rparr>,
         ?a \<mapsto> ?blk\<lparr>freed := True\<rparr>)"
    using h3 sl b(6) by (auto simp: fun_eq_iff)
  then show ?thesis
    using res f3 by (intro exI[of _ ?W6] exI[of _ "?blk\<lparr>freed := True\<rparr>"]) (simp add: mult.commute)
qed


lemma overwrite_fresh_inside:
  assumes "i \<le> n" "n < c" "length xs = n"
  shows "overwrite (overwrite ((replicate c Raw)[i := x]) 0 (take i xs)) (Suc i) (drop i xs) =
         take i xs @ [x] @ drop i xs @ replicate (c - Suc n) Raw"
proof -
  have 1: "overwrite ((replicate c Raw)[i := x]) 0 (take i xs) =
           take i xs @ [x] @ replicate (c - Suc i) Raw"
    using assms overwrite_fresh_back[of i c "take i xs" x] by simp
  have "overwrite (take i xs @ [x] @ replicate (c - Suc i) Raw) (Suc i) (drop i xs) =
        take i xs @ [x] @ drop i xs @ replicate (c - Suc n) Raw"
    using assms by (simp add: overwrite_def Suc_diff_le)
  with 1 show ?thesis by simp
qed

lemma RelocatedEmplace_inside:
  assumes wf: "wf_vector W this"
    and full: "size_m (vecs W this) = capacity_m (data_m (vecs W this))"
    and i: "i < size_m (vecs W this)"
    and np: "\<forall>j. throw_plan T (ops W + j) = None"
  shows "\<exists>W' blk. RelocatedEmplace T this (buffer_m (data_m (vecs W this)), i) arg W =
                     Ok (next_addr W, i) W' \<and>
     vecs W' = (vecs W)(this := \<lparr>data_m = \<lparr>buffer_m = next_addr W,
                                             capacity_m = 2 * size_m (vecs W this)\<rparr>,
                                  size_m = Suc (size_m (vecs W this))\<rparr>) \<and>
     heap W' = (heap W)
        (next_addr W \<mapsto> \<lparr>freed = False,
            slots = take i (elems W this) @ [Live arg] @ drop i (elems W this) @
                    replicate (size_m (vecs W this) - 1) Raw\<rparr>,
         buffer_m (data_m (vecs W this)) \<mapsto> blk) \<and>
     freed blk \<and> next_addr W' = Suc (next_addr W)"
proof -
  let ?v = "vecs W this"
  let ?a = "buffer_m (data_m ?v)" and ?n = "size_m ?v"
  let ?a' = "next_addr W" and ?c' = "?n * 2"
  have pos: "0 < ?n" using i by simp
  from wf full pos obtain b where b: "heap W ?a = Some b" "\<not> freed b" "length (slots b) = ?n"
    "\<forall>j<?n. slots b ! j \<noteq> Raw" "?a \<noteq> nullptr" "?a < ?a'" "elems W this = take ?n (slots b)"
    by (elim wf_vectorD) auto
  have el: "elems W this = slots b"
    using b by simp
  let ?F = "\<lparr>freed = False, slots = replicate ?c' (Raw :: 'a slot)\<rparr>"
  let ?W1 = "W\<lparr>heap := (heap W)(?a' \<mapsto> ?F), next_addr := Suc ?a'\<rparr>"
  let ?F1 = "?F\<lparr>slots := (slots ?F)[i := Live arg]\<rparr>"
  let ?W2 = "?W1\<lparr>heap := (heap ?W1)(?a' \<mapsto> ?F1), ops := Suc (ops ?W1)\<rparr>"
  have ctor: "RawMemory_ctor (if ?n = 0 then 1 else ?n * 2) W =
      (\<lparr>buffer_m = ?a', capacity_m = ?c'\<rparr>, ?W1)"
    using pos by (simp add: RawMemory_ctor_nonzero)
  have c: "construct_at T (?a', i) arg ?W1 = Ok () ?W2"
    using np[rule_format, of 0] i by (intro construct_at_ok) auto
  let ?F2 = "?F1\<lparr>slots := overwrite (slots ?F1) 0 (take i (drop 0 (slots b)))\<rparr>"
  have "\<exists>W3 sb'. relocate_n T (?a, 0) i (?a', 0) ?W2 = Ok () W3 \<and>
     heap W3 = (heap ?W2)(?a' \<mapsto> ?F2, ?a \<mapsto> sb') \<and>
     \<not> freed sb' \<and> length (slots sb') = length (slots b) \<and>
     (\<forall>j<length (slots b). (slots sb' ! j = Raw) = (slots b ! j = Raw)) \<and>
     (\<forall>j<length (slots b). j < 0 \<or> 0 + i \<le> j \<longrightarrow> slots sb' ! j = slots b ! j) \<and>
     vecs W3 = vecs ?W2 \<and> next_addr W3 = next_addr ?W2 \<and> ops ?W2 \<le> ops W3"
  proof (rule relocate_n_ok)
    show "heap ?W2 ?a = Some b" using b by simp
    show "heap ?W2 ?a' = Some ?F1" by simp
    show "\<forall>j. throw_plan T (ops ?W2 + j) = None"
    proof
      fix j
      have "throw_plan T (ops W + Suc j) = None"
        using np by blast
      then show "throw_plan T (ops ?W2 + j) = None" by simp
    qed
  qed (use b i in auto)
  then obtain W3 sb1 where r1: "relocate_n T (?a, 0) i (?a', 0) ?W2 = Ok () W3"
    and h3: "heap W3 = (heap ?W2)(?a' \<mapsto> ?F2, ?a \<mapsto> sb1)"
    and sb1: "\<not> freed sb1" "length (slots sb1) = ?n"
      "\<forall>j<?n. (slots sb1 ! j = Raw) = (slots b ! j = Raw)"
      "\<forall>j<?n. i \<le> j \<longrightarrow> slots sb1 ! j = slots b ! j"
    and f3: "vecs W3 = vecs W" "next_addr W3 = Suc ?a'" "Suc (ops W) \<le> ops W3"
    using b(3) by auto
  have tail: "take (?n - i) (drop i (slots sb1)) = drop i (slots b)"
    using sb1 b(3) i by (intro nth_equalityI) auto
  let ?F3 = "?F2\<lparr>slots := overwrite (slots ?F2) (Suc i) (take (?n - i) (drop i (slots sb1)))\<rparr>"
  have "\<exists>W4 sb'. relocate_n T (?a, i) (?n - i) (?a', Suc i) W3 = Ok () W4 \<and>
     heap W4 = (heap W3)(?a' \<mapsto> ?F3, ?a \<mapsto> sb') \<and>
     \<not> freed sb' \<and> length (slots sb') = length (slots sb1) \<and>
     (\<forall>j<length (slots sb1). (slots sb' ! j = Raw) = (slots sb1 ! j = Raw)) \<and>
     (\<forall>j<length (slots sb1). j < i \<or> i + (?n - i) \<le> j \<longrightarrow> slots sb' ! j = slots sb1 ! j) \<and>
     vecs W4 = vecs W3 \<and> next_addr W4 = next_addr W3 \<and> ops W3 \<le> ops W4"
  proof (rule relocate_n_ok)
    show "heap W3 ?a = Some sb1" using h3 by simp
    show "heap W3 ?a' = Some ?F2" using h3 b(6) by simp
    show "\<forall>j. throw_plan T (ops W3 + j) = None"
    proof
      fix j
      have "throw_plan T (ops W + (ops W3 - ops W + j)) = None"
        using np by blast
      then show "throw_plan T (ops W3 + j) = None" using f3(3) by simp
    qed
    show "\<forall>j<?n - i. slots sb1 ! (i + j) \<noteq> Raw"
      using sb1 b(4) by auto
    show "Suc i + (?n - i) \<le> length (slots ?F2)"
      using i by simp
  qed (use b i sb1 in auto)
  then obtain W4 sb2 where r2: "relocate_n T (?a, i) (?n - i) (?a', Suc i) W3 = Ok () W4"
    and h4: "heap W4 = (heap W3)(?a' \<mapsto> ?F3, ?a \<mapsto> sb2)"
    and sb2: "\<not> freed sb2" "length (slots sb2) = ?n"
      "\<forall>j<?n. (slots sb2 ! j = Raw) = (slots sb1 ! j = Raw)"
    and f4: "vecs W4 = vecs W" "next_addr W4 = Suc ?a'"
    using sb1(2) f3 by auto
  let ?blk = "sb2\<lparr>slots := overwrite (slots sb2) 0 (replicate ?n Raw)\<rparr>"
  let ?W5 = "W4\<lparr>heap := (heap W4)(?a \<mapsto> ?blk)\<rparr>"
  have d: "destroy_n T (?a, 0) ?n W4 = Ok () ?W5"
  proof (rule destroy_n_ok)
    show "heap W4 ?a = Some sb2" using h4 by simp
    show "trivially_destructible T \<or> (\<forall>j<?n. slots sb2 ! (0 + j) \<noteq> Raw)"
      using sb2 sb1 b(4) by simp
  qed (use sb2 in auto)
  let ?v1 = "\<lparr>data_m = \<lparr>buffer_m = ?a', capacity_m = ?c'\<rparr>, size_m = Suc ?n\<rparr>"
  let ?W6 = "?W5\<lparr>vecs := (vecs ?W5)(this := ?v1)\<rparr>"
  let ?W7 = "?W6\<lparr>heap := (heap ?W6)(?a \<mapsto> ?blk\<lparr>freed := True\<rparr>)\<rparr>"
  have dt: "RawMemory_dtor \<lparr>buffer_m = ?a, capacity_m = capacity_m (data_m ?v)\<rparr> ?W6 = Ok () ?W7"
    using sb2 b(5) by (intro RawMemory_dtor_ok) auto
  have e: "Vector_end ?v = Some (?a, ?n)"
    using full by (simp add: Vector_end_def RawMemory_plus_def)
  have res: "RelocatedEmplace T this (?a, i) arg W = Ok (?a', i) ?W7"
    using e ctor c r1 r2 d dt i
    by (simp add: RelocatedEmplace_def Let_def GetAddress_def ptr_add_def ptr_diff_def
        Vector_begin_def catch_std_rethrow_def RawMemory_Swap_def RawMemory_plus_def
        Vector_update_all RawMemory_update_all)
  have sl: "slots ?F3 =
      take i (elems W this) @ [Live arg] @ drop i (elems W this) @ replicate (?n - 1) Raw"
    using overwrite_fresh_inside[of i ?n ?c' "slots b" "Live arg"] b(3) i tail el
    by (simp add: mult_2_right)
  have "heap ?W7 = (heap W)
        (?a' \<mapsto> \<lparr>freed = False,
            slots = take i (elems W this) @ [Live arg] @ drop i (elems W this) @
                    replicate (?n - 1) Raw\<rparr>,
         ?a \<mapsto> ?blk\<lparr>freed := True\<rparr>)"
  proof -
    have "heap ?W7 ?a' = Some ?F3"
      using h4 b(6) by simp
    moreover have "?F3 = \<lparr>freed = False,
            slots = take i (elems W this) @ [Live arg] @ drop i (elems W this) @
                    replicate (?n - 1) Raw\<rparr>"
      using sl by simp
    moreover have "heap ?W7 x = heap W x" if "x \<noteq> ?a'" "x \<noteq> ?a" for x
      using that h4 h3 by simp
    moreover have "heap ?W7 ?a = Some (?blk\<lparr>freed := True\<rparr>)"
      by simp
    ultimately show ?thesis
      by (auto simp: fun_eq_iff)
  qed
  then show ?thesis
    using res f4 by (intro exI[of _ ?W7] exI[of _ "?blk\<lparr>freed := True\<rparr>"]) (simp add: mult.commute)
qed

section \<open>Insertion inside the existing block\<close>

lemma move_construct_at_same:
  assumes "heap W a = Some b" "\<not> freed b" "s < length (slots b)" "d < length (slots b)"
    "slots b ! s \<noteq> Raw" "nothrow_move T \<or> throw_plan T (ops W) = None"
  shows "move_construct_at T (a, d) (a, s) W =
     Ok () (W\<lparr>heap := (heap W)(a \<mapsto>
                 b\<lparr>slots := (slots b)[d := slots b ! s, s := mv_slot T (slots b ! s)]\<rparr>),
              ops := (if nothrow_move T then ops W else Suc (ops W))\<rparr>)"
proof -
  obtain v where v: "slots b ! s = Live v"
    using assms(5) by (cases "slots b ! s") auto
  show ?thesis
    using assms v by (auto simp add: move_construct_at_def slot_at_def put_slot_def tick_def)
qed

lemma insert_shift:
  assumes "i < n" "n < length ys"
  shows "(overwrite (ys[n := ys ! (n - 1), n - 1 := z]) i
            (x # take (n - 1 - i) (drop i (ys[n := ys ! (n - 1), n - 1 := z]))))[i := w] =
         overwrite ys i (w # take (n - i) (drop i ys))"
proof (rule nth_equalityI)
  let ?ys2 = "ys[n := ys ! (n - 1), n - 1 := z]"
  let ?zs = "x # take (n - 1 - i) (drop i ?ys2)"
  have lz: "length ?zs = n - i"
    using assms by simp
  have l1: "length (overwrite ?ys2 i ?zs) = length ys"
    using assms lz by (subst length_overwrite) auto
  have l2: "length (overwrite ys i (w # take (n - i) (drop i ys))) = length ys"
    using assms by (subst length_overwrite) auto
  show "length ((overwrite ?ys2 i ?zs)[i := w]) =
        length (overwrite ys i (w # take (n - i) (drop i ys)))"
    using l1 l2 by simp
  fix j assume "j < length ((overwrite ?ys2 i ?zs)[i := w])"
  then have j: "j < length ys" using l1 by simp
  have L: "overwrite ?ys2 i ?zs ! j = (if i \<le> j \<and> j < i + length ?zs then ?zs ! (j - i) else ?ys2 ! j)"
    using assms lz j by (intro nth_overwrite) auto
  have R: "overwrite ys i (w # take (n - i) (drop i ys)) ! j =
      (if i \<le> j \<and> j < i + length (w # take (n - i) (drop i ys))
       then (w # take (n - i) (drop i ys)) ! (j - i) else ys ! j)"
    using assms j by (intro nth_overwrite) auto
  consider "j < i" | "j = i" | "i < j" "j < n" | "j = n" | "n < j"
    by linarith
  then show "(overwrite ?ys2 i ?zs)[i := w] ! j = overwrite ys i (w # take (n - i) (drop i ys)) ! j"
  proof cases
    case 1
    then show ?thesis using L R assms j l1 by (simp add: nth_list_update)
  next
    case 2
    then show ?thesis using L R assms j l1 by (simp add: nth_list_update)
  next
    case 3
    then show ?thesis using L R assms j l1 lz
      by (auto simp add: nth_list_update nth_Cons')
  next
    case 4
    then show ?thesis using L R assms j l1 lz
      by (auto simp add: nth_list_update nth_Cons')
  next
    case 5
    then show ?thesis using L R assms j l1 lz by (simp add: nth_list_update)
  qed
qed


lemma UnusedEmplace_inside:
  assumes wf: "wf_vector W this"
    and room: "size_m (vecs W this) < capacity_m (data_m (vecs W this))"
    and i: "i < size_m (vecs W this)"
    and np: "\<forall>j. throw_plan T (ops W + j) = None"
    and b: "heap W (buffer_m (data_m (vecs W this))) = Some b"
  shows "\<exists>W'. UnusedEmplace T this (buffer_m (data_m (vecs W this)), i) arg W =
                 Ok (buffer_m (data_m (vecs W this)), i) W' \<and>
     vecs W' = (vecs W)(this := (vecs W this)\<lparr>size_m := Suc (size_m (vecs W this))\<rparr>) \<and>
     heap W' = (heap W)(buffer_m (data_m (vecs W this)) \<mapsto>
        b\<lparr>slots := overwrite (slots b) i
             (Live arg # take (size_m (vecs W this) - i) (drop i (slots b)))\<rparr>) \<and>
     next_addr W' = next_addr W"
proof -
  let ?v = "vecs W this"
  let ?a = "buffer_m (data_m ?v)" and ?n = "size_m ?v" and ?c = "capacity_m (data_m ?v)"
  let ?k = "?n - 1 - i"
  from wf room obtain b' where b': "heap W ?a = Some b'" "\<not> freed b'" "length (slots b') = ?c"
    "\<forall>j<?n. slots b' ! j \<noteq> Raw"
    by (elim wf_vectorD) auto
  with b have bp: "\<not> freed b" "length (slots b) = ?c" "\<forall>j<?n. slots b ! j \<noteq> Raw"
    by auto
  have ik: "i + ?k = ?n - 1" "Suc (i + ?k) = ?n"
    using i by auto
  let ?W1 = "W\<lparr>ops := Suc (ops W)\<rparr>"
  have cl: "construct_local T arg W = Ok arg ?W1"
    using np[rule_format, of 0] by (simp add: construct_local_def tick_def)
  let ?z = "mv_slot T (slots b ! (?n - 1))"
  let ?S2 = "(slots b)[?n := slots b ! (?n - 1), ?n - 1 := ?z]"
  let ?o2 = "if nothrow_move T then ops ?W1 else Suc (ops ?W1)"
  let ?W2 = "?W1\<lparr>heap := (heap ?W1)(?a \<mapsto> b\<lparr>slots := ?S2\<rparr>), ops := ?o2\<rparr>"
  have mc: "move_construct_at T (?a, ?n) (?a, ?n - 1) ?W1 = Ok () ?W2"
  proof (rule move_construct_at_same)
    show "nothrow_move T \<or> throw_plan T (ops ?W1) = None"
      using np[rule_format, of 1] by simp
    show "slots b ! (?n - 1) \<noteq> Raw"
      using bp(3) i by simp
  qed (use b bp room i in auto)
  have np2: "throw_plan T (ops ?W2 + j) = None" for j
  proof -
    have "throw_plan T (ops W + (ops ?W2 - ops W + j)) = None"
      using np by blast
    then show ?thesis by simp
  qed
  let ?x = "if ?k = 0 then ?S2 ! i else mv_slot T (?S2 ! i)"
  let ?S3 = "overwrite ?S2 i (?x # take ?k (drop i ?S2))"
  let ?W3 = "?W2\<lparr>heap := (heap ?W2)(?a \<mapsto> b\<lparr>slots := ?S3\<rparr>), ops := ops ?W2 + ?k\<rparr>"
  have live2: "?S2 ! (i + j) \<noteq> Raw" if "j \<le> ?k" for j
  proof -
    have "i + j < ?n" using that i by simp
    then have "slots b ! (i + j) \<noteq> Raw" using bp(3) by simp
    moreover have "slots b ! (?n - 1) \<noteq> Raw" using bp(3) i by simp
    ultimately show ?thesis
      using room bp(2) \<open>i + j < ?n\<close> by (auto simp: nth_list_update)
  qed
  have "move_backward_loop T (?a, i + ?k) (?a, Suc (i + ?k)) ?k ?W2 =
      Ok () (?W2\<lparr>heap := (heap ?W2)(?a \<mapsto>
                 (b\<lparr>slots := ?S2\<rparr>)\<lparr>slots := overwrite (slots (b\<lparr>slots := ?S2\<rparr>)) i
                     ((if ?k = 0 then slots (b\<lparr>slots := ?S2\<rparr>) ! i
                       else mv_slot T (slots (b\<lparr>slots := ?S2\<rparr>) ! i)) #
                      take ?k (drop i (slots (b\<lparr>slots := ?S2\<rparr>))))\<rparr>),
              ops := ops ?W2 + ?k\<rparr>)"
  proof (rule move_backward_loop_shift_right)
    show "\<forall>j\<le>?k. slots (b\<lparr>slots := ?S2\<rparr>) ! (i + j) \<noteq> Raw"
      using live2 by simp
    show "\<forall>j<?k. throw_plan T (ops ?W2 + j) = None"
      using np2 by blast
    show "i + ?k < length (slots (b\<lparr>slots := ?S2\<rparr>))"
      using i room bp(2) by simp
  qed (use bp in auto)
  then have mb: "move_backward_loop T (?a, ?n - 1) (?a, ?n) ?k ?W2 = Ok () ?W3"
    using ik by simp
  have x3: "?S3 ! i = ?x"
    using i room bp(2) by (subst nth_overwrite) auto
  have xl: "?x \<noteq> Raw"
    using live2[of 0] by auto
  have len3: "length ?S3 = length (slots b)"
    using i room bp(2) by (subst length_overwrite) auto
  let ?W4 = "?W3\<lparr>heap := (heap ?W3)(?a \<mapsto> (b\<lparr>slots := ?S3\<rparr>)\<lparr>slots := (slots (b\<lparr>slots := ?S3\<rparr>))[i := Live arg]\<rparr>),
                ops := Suc (ops ?W3)\<rparr>"
  have ma: "move_assign_from_local T (?a, i) arg ?W3 = Ok () ?W4"
  proof (rule move_assign_from_local_ok)
    show "slots (b\<lparr>slots := ?S3\<rparr>) ! i \<noteq> Raw"
      using x3 xl by simp
    show "throw_plan T (ops ?W3) = None"
      using np2[of ?k] by simp
    show "i < length (slots (b\<lparr>slots := ?S3\<rparr>))"
      using len3 i room bp(2) by simp
  qed (use bp in auto)
  have e: "Vector_end ?v = Some (?a, ?n)"
    using room by (simp add: Vector_end_def RawMemory_plus_def)
  let ?W5 = "?W4\<lparr>vecs := (vecs ?W4)(this := ?v\<lparr>size_m := Suc ?n\<rparr>)\<rparr>"
  have res: "UnusedEmplace T this (?a, i) arg W = Ok (?a, i) ?W5"
    using e cl mc mb ma i room
    by (auto simp add: UnusedEmplace_def Let_def GetAddress_def ptr_add_def ptr_diff_def ptr_sub_def
        Vector_begin_def catch_std_rethrow_def RawMemory_plus_def RawMemory_index_def
        move_backward_def)
  have fin: "?S3[i := Live arg] = overwrite (slots b) i (Live arg # take (?n - i) (drop i (slots b)))"
    using insert_shift[of i ?n "slots b" ?z ?x "Live arg"] i room bp(2) by simp
  have "heap ?W5 = (heap W)(?a \<mapsto>
        b\<lparr>slots := overwrite (slots b) i (Live arg # take (?n - i) (drop i (slots b)))\<rparr>)"
    using fin by (auto simp: fun_eq_iff)
  then show ?thesis
    using res by (intro exI[of _ ?W5]) simp
qed

section \<open>Single-element insertion: summary\<close>

lemma elems_size_0: "size_m (vecs W this) = 0 \<Longrightarrow> elems W this = []"
  by (simp add: elems_def split: option.splits)

lemma length_elems:
  "wf_vector W this \<Longrightarrow> capacity_m (data_m (vecs W this)) \<noteq> 0 \<Longrightarrow>
   length (elems W this) = size_m (vecs W this)"
  by (erule wf_vectorD) auto

lemma Vector_size_update:
  "(v :: Vector)\<lparr>size_m := k\<rparr> = \<lparr>data_m = data_m v, size_m = k\<rparr>"
  by (cases v) simp

lemma EmplaceBack_ok:
  assumes wf: "wf_vector W this" and np: "\<forall>j. throw_plan T (ops W + j) = None"
  shows "\<exists>W' blk D.
     D = (if size_m (vecs W this) = capacity_m (data_m (vecs W this))
          then \<lparr>buffer_m = next_addr W, capacity_m = max 1 (2 * size_m (vecs W this))\<rparr>
          else data_m (vecs W this)) \<and>
     EmplaceBack T this arg W = Ok (buffer_m D, size_m (vecs W this)) W' \<and>
     vecs W' = (vecs W)(this := \<lparr>data_m = D, size_m = Suc (size_m (vecs W this))\<rparr>) \<and>
     heap W' (buffer_m D) = Some blk \<and> \<not> freed blk \<and> length (slots blk) = capacity_m D \<and>
     take (Suc (size_m (vecs W this))) (slots blk) = elems W this @ [Live arg] \<and>
     (\<forall>x. x < next_addr W \<and> x \<noteq> buffer_m (data_m (vecs W this)) \<longrightarrow> heap W' x = heap W x) \<and>
     next_addr W' =
       (if size_m (vecs W this) = capacity_m (data_m (vecs W this))
        then Suc (next_addr W) else next_addr W)"
proof -
  let ?v = "vecs W this"
  let ?a = "buffer_m (data_m ?v)" and ?n = "size_m ?v" and ?c = "capacity_m (data_m ?v)"
  have le: "?n \<le> ?c" by (rule wf_vector_size_le[OF wf])
  consider (room) "?n < ?c" | (empty) "?n = ?c" "?c = 0" | (full) "?n = ?c" "0 < ?n"
    using le by linarith
  then show ?thesis
  proof cases
    case room
    from wf room obtain b where b: "heap W ?a = Some b" "\<not> freed b" "length (slots b) = ?c"
      "elems W this = take ?n (slots b)"
      by (elim wf_vectorD) auto
    have "UnusedEmplaceBack T this arg W =
       Ok (?a, ?n)
          (W\<lparr>heap := (heap W)(?a \<mapsto> b\<lparr>slots := (slots b)[?n := Live arg]\<rparr>),
             ops := Suc (ops W),
             vecs := (vecs W)(this := ?v\<lparr>size_m := Suc ?n\<rparr>)\<rparr>)"
      using wf room np[rule_format, of 0] b(1) by (intro UnusedEmplaceBack_ok) auto
    then show ?thesis
      using room b
      by (simp add: EmplaceBack_def Capacity_def take_Suc_conv_app_nth Vector_size_update)
  next
    case empty
    have "RelocatedEmplaceBack T this arg W =
     Ok (next_addr W, 0)
        (W\<lparr>heap := (heap W)(next_addr W \<mapsto> \<lparr>freed = False, slots = [Live arg]\<rparr>),
           next_addr := Suc (next_addr W),
           ops := Suc (ops W),
           vecs := (vecs W)(this := \<lparr>data_m = \<lparr>buffer_m = next_addr W, capacity_m = 1\<rparr>,
                                     size_m = 1\<rparr>)\<rparr>)"
      using wf empty(2) np by (rule RelocatedEmplaceBack_empty)
    then show ?thesis
      using empty by (simp add: EmplaceBack_def Capacity_def elems_size_0)
  next
    case full
    from RelocatedEmplaceBack_full[OF wf full np, of arg]
    obtain W' blk where r: "RelocatedEmplaceBack T this arg W = Ok (next_addr W, ?n) W'"
      and v: "vecs W' = (vecs W)(this := \<lparr>data_m = \<lparr>buffer_m = next_addr W, capacity_m = 2 * ?n\<rparr>,
                                  size_m = Suc ?n\<rparr>)"
      and h: "heap W' = (heap W)
        (next_addr W \<mapsto> \<lparr>freed = False,
            slots = elems W this @ [Live arg] @ replicate (?n - 1) Raw\<rparr>,
         ?a \<mapsto> blk)"
      and f: "freed blk" "next_addr W' = Suc (next_addr W)"
      by blast
    have ne: "?a \<noteq> next_addr W" and len: "length (elems W this) = ?n"
      using wf full by (auto elim: wf_vectorD)
    have m: "max 1 (2 * ?n) = 2 * ?n"
      using full(2) by simp
    show ?thesis
      using r v h f full ne len
      by (simp add: EmplaceBack_def Capacity_def m)
  qed
qed


lemma Emplace_at_end:
  assumes "size_m (vecs W this) \<le> capacity_m (data_m (vecs W this))"
  shows "Emplace T this (buffer_m (data_m (vecs W this)), size_m (vecs W this)) arg W =
         and_then (EmplaceBack T this arg W) (\<lambda>_ W1. end_minus_1 this W1)"
  using assms
  by (simp add: Emplace_def EmplaceBack_def RelocatedEmplace_def UnusedEmplace_def Let_def
      Vector_end_def RawMemory_plus_def)

lemma Emplace_ok:
  assumes wf: "wf_vector W this" and np: "\<forall>j. throw_plan T (ops W + j) = None"
    and i: "i \<le> size_m (vecs W this)"
  shows "\<exists>W' blk D.
     D = (if size_m (vecs W this) = capacity_m (data_m (vecs W this))
          then \<lparr>buffer_m = next_addr W, capacity_m = max 1 (2 * size_m (vecs W this))\<rparr>
          else data_m (vecs W this)) \<and>
     Emplace T this (buffer_m (data_m (vecs W this)), i) arg W = Ok (buffer_m D, i) W' \<and>
     vecs W' = (vecs W)(this := \<lparr>data_m = D, size_m = Suc (size_m (vecs W this))\<rparr>) \<and>
     heap W' (buffer_m D) = Some blk \<and> \<not> freed blk \<and> length (slots blk) = capacity_m D \<and>
     take (Suc (size_m (vecs W this))) (slots blk) =
       take i (elems W this) @ [Live arg] @ drop i (elems W this) \<and>
     (\<forall>x. x < next_addr W \<and> x \<noteq> buffer_m (data_m (vecs W this)) \<longrightarrow> heap W' x = heap W x) \<and>
     next_addr W' =
       (if size_m (vecs W this) = capacity_m (data_m (vecs W this))
        then Suc (next_addr W) else next_addr W)"
proof -
  let ?v = "vecs W this"
  let ?a = "buffer_m (data_m ?v)" and ?n = "size_m ?v" and ?c = "capacity_m (data_m ?v)"
  have le: "?n \<le> ?c" by (rule wf_vector_size_le[OF wf])
  consider (at_end) "i = ?n" | (room) "i < ?n" "?n < ?c" | (full) "i < ?n" "?n = ?c"
    using le i by linarith
  then show ?thesis
  proof cases
    case at_end
    from EmplaceBack_ok[OF wf np, of arg]
    obtain W' blk D where D: "D = (if ?n = ?c
          then \<lparr>buffer_m = next_addr W, capacity_m = max 1 (2 * ?n)\<rparr> else data_m ?v)"
      and r: "EmplaceBack T this arg W = Ok (buffer_m D, ?n) W'"
      and v: "vecs W' = (vecs W)(this := \<lparr>data_m = D, size_m = Suc ?n\<rparr>)"
      and rest: "heap W' (buffer_m D) = Some blk" "\<not> freed blk" "length (slots blk) = capacity_m D"
        "take (Suc ?n) (slots blk) = elems W this @ [Live arg]"
        "\<forall>x. x < next_addr W \<and> x \<noteq> ?a \<longrightarrow> heap W' x = heap W x"
        "next_addr W' = (if ?n = ?c then Suc (next_addr W) else next_addr W)"
      by blast
    have cap: "Suc ?n \<le> capacity_m D"
      using D le by (auto split: if_splits)
    have em: "end_minus_1 this W' = Ok (buffer_m D, ?n) W'"
      using v cap by (simp add: end_minus_1_def Vector_end_def RawMemory_plus_def ptr_sub_def)
    have len: "length (elems W this) = ?n"
    proof (cases "?c = 0")
      case True
      then show ?thesis using le by (simp add: elems_size_0)
    next
      case False
      then show ?thesis using wf by (rule length_elems[rotated])
    qed
    have "Emplace T this (?a, i) arg W = Ok (buffer_m D, i) W'"
      using Emplace_at_end[OF le, of T arg] r em at_end by simp
    then show ?thesis
      using D v rest at_end len by auto
  next
    case room
    from wf room obtain b where b: "heap W ?a = Some b" "\<not> freed b" "length (slots b) = ?c"
      "elems W this = take ?n (slots b)"
      by (elim wf_vectorD) auto
    from UnusedEmplace_inside[OF wf room(2) room(1) np b(1), of arg]
    obtain W' where r: "UnusedEmplace T this (?a, i) arg W = Ok (?a, i) W'"
      and v: "vecs W' = (vecs W)(this := ?v\<lparr>size_m := Suc ?n\<rparr>)"
      and h: "heap W' = (heap W)(?a \<mapsto>
          b\<lparr>slots := overwrite (slots b) i (Live arg # take (?n - i) (drop i (slots b)))\<rparr>)"
      and f: "next_addr W' = next_addr W"
      by blast
    let ?zs = "Live arg # take (?n - i) (drop i (slots b))"
    have lz: "length ?zs = Suc (?n - i)"
      using room b by simp
    have "take (i + Suc (?n - i)) (overwrite (slots b) i ?zs) = take i (slots b) @ take (Suc (?n - i)) ?zs"
      using room b lz by (intro take_overwrite_prefix) auto
    then have tk: "take (Suc ?n) (overwrite (slots b) i ?zs) =
        take i (elems W this) @ [Live arg] @ drop i (elems W this)"
      using room b by (simp add: drop_take min_def)
    have lo: "length (overwrite (slots b) i ?zs) = ?c"
      using room b lz by (subst length_overwrite) auto
    show ?thesis
      using r v h f room b tk lo
      by (simp add: Emplace_def Capacity_def Vector_size_update)
  next
    case full
    from RelocatedEmplace_inside[OF wf full(2) full(1) np, of arg]
    obtain W' blk where r: "RelocatedEmplace T this (?a, i) arg W = Ok (next_addr W, i) W'"
      and v: "vecs W' = (vecs W)(this := \<lparr>data_m = \<lparr>buffer_m = next_addr W, capacity_m = 2 * ?n\<rparr>,
                                  size_m = Suc ?n\<rparr>)"
      and h: "heap W' = (heap W)
        (next_addr W \<mapsto> \<lparr>freed = False,
            slots = take i (elems W this) @ [Live arg] @ drop i (elems W this) @
                    replicate (?n - 1) Raw\<rparr>,
         ?a \<mapsto> blk)"
      and f: "freed blk" "next_addr W' = Suc (next_addr W)"
      by blast
    have pos: "0 < ?n" using full by simp
    have ne: "?a \<noteq> next_addr W" and len: "length (elems W this) = ?n"
      using wf full pos by (auto elim: wf_vectorD)
    have m: "max 1 (2 * ?n) = 2 * ?n"
      using pos by simp
    let ?xs = "take i (elems W this) @ [Live arg] @ drop i (elems W this)"
    have "length ?xs = Suc ?n"
      using len full(1) by simp
    then have "take (Suc ?n) (?xs @ replicate (?n - 1) Raw) = ?xs"
      by (metis append_eq_conv_conj)
    then have tk: "take (Suc ?n) (take i (elems W this) @ [Live arg] @ drop i (elems W this) @
                    replicate (?n - 1) Raw) = ?xs"
      by simp
    have h1: "heap W' (next_addr W) = Some \<lparr>freed = False,
            slots = take i (elems W this) @ [Live arg] @ drop i (elems W this) @
                    replicate (?n - 1) Raw\<rparr>"
      using h ne by simp
    have h2: "\<forall>x. x < next_addr W \<and> x \<noteq> ?a \<longrightarrow> heap W' x = heap W x"
      using h by simp
    have "Emplace T this (?a, i) arg W = Ok (next_addr W, i) W'"
      using r full by (simp add: Emplace_def Capacity_def)
    then show ?thesis
      using v h1 h2 f tk full(2) len pos
      by (intro exI[of _ W'] exI[of _ "\<lparr>freed = False,
            slots = take i (elems W this) @ [Live arg] @ drop i (elems W this) @
                    replicate (?n - 1) Raw\<rparr>"]
          exI[of _ "\<lparr>buffer_m = next_addr W, capacity_m = max 1 (2 * ?n)\<rparr>"])
        (simp add: m del: take_append)
  qed
qed

lemma length_elems_wf:
  assumes "wf_vector W this"
  shows "length (elems W this) = size_m (vecs W this)"
proof (cases "capacity_m (data_m (vecs W this)) = 0")
  case True
  then show ?thesis
    using wf_vector_size_le[OF assms] by (simp add: elems_size_0)
next
  case False
  then show ?thesis using assms by (rule length_elems[rotated])
qed

lemma world_of_simps:
  "vecs (world_of xs n) 0 = \<lparr>data_m = \<lparr>buffer_m = 1, capacity_m = length xs\<rparr>, size_m = n\<rparr>"
  "ops (world_of xs n) = 0"
  "next_addr (world_of xs n) = 2"
  "heap (world_of xs n) 1 = Some \<lparr>freed = False, slots = xs\<rparr>"
  by (simp_all add: world_of_def)

lemma elems_world_of: "elems (world_of xs n) 0 = take n xs"
  by (simp add: elems_def world_of_def)

section \<open>Growth policy\<close>

text \<open>
  C6.  For a well-formed vector, a valid position \<open>i \<le> size\<close> and element operations
  that do not throw, each single-element insertion (\<^verbatim>\<open>EmplaceBack\<close>, \<^verbatim>\<open>PushBack\<close>,
  \<^verbatim>\<open>Emplace\<close>, \<^verbatim>\<open>Insert\<close>) returns normally; the size grows by one, the buffer the
  vector has afterwards is an allocated block with \<open>Capacity()\<close> slots, the new element
  is in that buffer at its position (the old size when appending, \<open>i\<close> otherwise), and the
  other elements keep their order around it.  When size equals capacity the capacity
  afterwards is exactly \<open>max 1 (2 * size)\<close>; otherwise the buffer and the capacity are
  unchanged and nothing is allocated, so the insertion took place in the existing block.
\<close>

theorem single_insertion_capacity:
  assumes "wf_vector W this" "\<forall>j. throw_plan T (ops W + j) = None"
    "i \<le> size_m (vecs W this)"
  shows
    "(\<exists>r W'. EmplaceBack T this arg W = Ok r W' \<and>
        size_m (vecs W' this) = Suc (size_m (vecs W this)) \<and>
        (\<exists>blk. heap W' (buffer_m (data_m (vecs W' this))) = Some blk \<and> \<not> freed blk \<and>
           length (slots blk) = Capacity (data_m (vecs W' this))) \<and>
        slot_at W' (buffer_m (data_m (vecs W' this)), size_m (vecs W this)) = Some (Live arg) \<and>
        elems W' this = elems W this @ [Live arg] \<and>
        (if size_m (vecs W this) = capacity_m (data_m (vecs W this))
         then Capacity (data_m (vecs W' this)) = max 1 (2 * size_m (vecs W this))
         else data_m (vecs W' this) = data_m (vecs W this) \<and> next_addr W' = next_addr W)) \<and>
     (\<exists>W'. PushBack T this arg W = Ok () W' \<and>
        size_m (vecs W' this) = Suc (size_m (vecs W this)) \<and>
        (\<exists>blk. heap W' (buffer_m (data_m (vecs W' this))) = Some blk \<and> \<not> freed blk \<and>
           length (slots blk) = Capacity (data_m (vecs W' this))) \<and>
        slot_at W' (buffer_m (data_m (vecs W' this)), size_m (vecs W this)) = Some (Live arg) \<and>
        elems W' this = elems W this @ [Live arg] \<and>
        (if size_m (vecs W this) = capacity_m (data_m (vecs W this))
         then Capacity (data_m (vecs W' this)) = max 1 (2 * size_m (vecs W this))
         else data_m (vecs W' this) = data_m (vecs W this) \<and> next_addr W' = next_addr W)) \<and>
     (\<exists>r W'. Emplace T this (buffer_m (data_m (vecs W this)), i) arg W = Ok r W' \<and>
        size_m (vecs W' this) = Suc (size_m (vecs W this)) \<and>
        (\<exists>blk. heap W' (buffer_m (data_m (vecs W' this))) = Some blk \<and> \<not> freed blk \<and>
           length (slots blk) = Capacity (data_m (vecs W' this))) \<and>
        slot_at W' (buffer_m (data_m (vecs W' this)), i) = Some (Live arg) \<and>
        elems W' this = take i (elems W this) @ [Live arg] @ drop i (elems W this) \<and>
        (if size_m (vecs W this) = capacity_m (data_m (vecs W this))
         then Capacity (data_m (vecs W' this)) = max 1 (2 * size_m (vecs W this))
         else data_m (vecs W' this) = data_m (vecs W this) \<and> next_addr W' = next_addr W)) \<and>
     (\<exists>r W'. Insert T this (buffer_m (data_m (vecs W this)), i) arg W = Ok r W' \<and>
        size_m (vecs W' this) = Suc (size_m (vecs W this)) \<and>
        (\<exists>blk. heap W' (buffer_m (data_m (vecs W' this))) = Some blk \<and> \<not> freed blk \<and>
           length (slots blk) = Capacity (data_m (vecs W' this))) \<and>
        slot_at W' (buffer_m (data_m (vecs W' this)), i) = Some (Live arg) \<and>
        elems W' this = take i (elems W this) @ [Live arg] @ drop i (elems W this) \<and>
        (if size_m (vecs W this) = capacity_m (data_m (vecs W this))
         then Capacity (data_m (vecs W' this)) = max 1 (2 * size_m (vecs W this))
         else data_m (vecs W' this) = data_m (vecs W this) \<and> next_addr W' = next_addr W))"
proof -
  let ?v = "vecs W this"
  let ?n = "size_m ?v"
  let ?D = "if ?n = capacity_m (data_m ?v)
          then \<lparr>buffer_m = next_addr W, capacity_m = max 1 (2 * ?n)\<rparr>
          else data_m ?v"
  let ?Q1 = "\<lambda>W'. size_m (vecs W' this) = Suc ?n \<and>
        (\<exists>blk. heap W' (buffer_m (data_m (vecs W' this))) = Some blk \<and> \<not> freed blk \<and>
           length (slots blk) = Capacity (data_m (vecs W' this))) \<and>
        slot_at W' (buffer_m (data_m (vecs W' this)), ?n) = Some (Live arg) \<and>
        elems W' this = elems W this @ [Live arg] \<and>
        (if ?n = capacity_m (data_m ?v)
         then Capacity (data_m (vecs W' this)) = max 1 (2 * ?n)
         else data_m (vecs W' this) = data_m ?v \<and> next_addr W' = next_addr W)"
  let ?Q2 = "\<lambda>W'. size_m (vecs W' this) = Suc ?n \<and>
        (\<exists>blk. heap W' (buffer_m (data_m (vecs W' this))) = Some blk \<and> \<not> freed blk \<and>
           length (slots blk) = Capacity (data_m (vecs W' this))) \<and>
        slot_at W' (buffer_m (data_m (vecs W' this)), i) = Some (Live arg) \<and>
        elems W' this = take i (elems W this) @ [Live arg] @ drop i (elems W this) \<and>
        (if ?n = capacity_m (data_m ?v)
         then Capacity (data_m (vecs W' this)) = max 1 (2 * ?n)
         else data_m (vecs W' this) = data_m ?v \<and> next_addr W' = next_addr W)"
  have len: "length (elems W this) = ?n"
    using assms(1) by (rule length_elems_wf)
  have cap: "Suc ?n \<le> capacity_m ?D"
    using wf_vector_size_le[OF assms(1)] by (auto split: if_splits)
  from EmplaceBack_ok[OF assms(1,2), of arg]
  obtain W1 blk1 where 1: "EmplaceBack T this arg W = Ok (buffer_m ?D, ?n) W1"
    "vecs W1 = (vecs W)(this := \<lparr>data_m = ?D, size_m = Suc ?n\<rparr>)"
    "heap W1 (buffer_m ?D) = Some blk1" "\<not> freed blk1" "length (slots blk1) = capacity_m ?D"
    "take (Suc ?n) (slots blk1) = elems W this @ [Live arg]"
    "next_addr W1 = (if ?n = capacity_m (data_m ?v) then Suc (next_addr W) else next_addr W)"
    by blast
  have "slots blk1 ! ?n = take (Suc ?n) (slots blk1) ! ?n"
    by simp
  then have s1: "slots blk1 ! ?n = Live arg"
    using 1(6) len by (simp add: nth_append)
  have v1: "data_m (vecs W1 this) = ?D" "size_m (vecs W1 this) = Suc ?n"
    using 1(2) by simp_all
  have sl1: "slot_at W1 (buffer_m ?D, ?n) = Some (Live arg)"
    using 1(3,4,5) s1 cap by (simp add: slot_at_def)
  have el1: "elems W1 this = elems W this @ [Live arg]"
    using 1(2,3,6) by (simp add: elems_def)
  have Q1: "?Q1 W1"
    unfolding v1 using 1(3,4,5,7) sl1 el1 by (simp add: Capacity_def)
  from Emplace_ok[OF assms, of arg]
  obtain W2 blk2 where 2: "Emplace T this (buffer_m (data_m ?v), i) arg W = Ok (buffer_m ?D, i) W2"
    "vecs W2 = (vecs W)(this := \<lparr>data_m = ?D, size_m = Suc ?n\<rparr>)"
    "heap W2 (buffer_m ?D) = Some blk2" "\<not> freed blk2" "length (slots blk2) = capacity_m ?D"
    "take (Suc ?n) (slots blk2) = take i (elems W this) @ [Live arg] @ drop i (elems W this)"
    "next_addr W2 = (if ?n = capacity_m (data_m ?v) then Suc (next_addr W) else next_addr W)"
    by blast
  have "slots blk2 ! i = take (Suc ?n) (slots blk2) ! i"
    using assms(3) by simp
  then have s2: "slots blk2 ! i = Live arg"
    using 2(6) len assms(3) by (simp add: nth_append)
  have v2: "data_m (vecs W2 this) = ?D" "size_m (vecs W2 this) = Suc ?n"
    using 2(2) by simp_all
  have sl2: "slot_at W2 (buffer_m ?D, i) = Some (Live arg)"
    using 2(3,4,5) s2 cap assms(3) by (simp add: slot_at_def)
  have el2: "elems W2 this = take i (elems W this) @ [Live arg] @ drop i (elems W this)"
    using 2(2,3,6) by (simp add: elems_def)
  have Q2: "?Q2 W2"
    unfolding v2 using 2(3,4,5,7) sl2 el2 by (simp add: Capacity_def)
  have a: "\<exists>r W'. EmplaceBack T this arg W = Ok r W' \<and> ?Q1 W'"
    using 1(1) Q1 by blast
  have b: "\<exists>W'. PushBack T this arg W = Ok () W' \<and> ?Q1 W'"
  proof -
    have "PushBack T this arg W = Ok () W1"
      using 1(1) by (simp add: PushBack_def)
    then show ?thesis
      using Q1 by blast
  qed
  have c: "\<exists>r W'. Emplace T this (buffer_m (data_m ?v), i) arg W = Ok r W' \<and> ?Q2 W'"
    using 2(1) Q2 by blast
  have d: "\<exists>r W'. Insert T this (buffer_m (data_m ?v), i) arg W = Ok r W' \<and> ?Q2 W'"
    using c by (simp only: Insert_def)
  show ?thesis
    using a b c d by blast
qed

theorem single_insertion_capacity_witness:
  "wf_vector (world_of [Live 10, Live 20] 2) 0 \<and>
   (\<exists>r W'. EmplaceBack int_type 0 7 (world_of [Live 10, Live 20] 2) = Ok r W' \<and>
      Capacity (data_m (vecs W' 0)) = 4 \<and> size_m (vecs W' 0) = 3 \<and>
      elems W' 0 = [Live 10, Live 20, Live 7]) \<and>
   (\<exists>r W'. Emplace int_type 0 (1, 1) 7 (world_of [Live 10, Live 20] 2) = Ok r W' \<and>
      Capacity (data_m (vecs W' 0)) = 4 \<and> size_m (vecs W' 0) = 3 \<and>
      elems W' 0 = [Live 10, Live 7, Live 20]) \<and>
   wf_vector (world_of [Live 10, Raw] 1) 0 \<and>
   (\<exists>r W'. Insert int_type 0 (1, 0) 7 (world_of [Live 10, Raw] 1) = Ok r W' \<and>
      data_m (vecs W' 0) = \<lparr>buffer_m = 1, capacity_m = 2\<rparr> \<and> size_m (vecs W' 0) = 2 \<and>
      slot_at W' (1, 0) = Some (Live 7) \<and> elems W' 0 = [Live 7, Live 10])"
proof -
  let ?A = "world_of [Live 10, Live 20] 2" and ?B = "world_of [Live 10, Raw] 1"
  have wf1: "wf_vector ?A 0" and wf2: "wf_vector ?B 0"
    by (simp_all add: wf_world_of)
  have np1: "\<forall>j. throw_plan int_type (ops ?A + j) = None"
    and np2: "\<forall>j. throw_plan int_type (ops ?B + j) = None"
    by (simp_all add: int_type_def)
  have i1: "1 \<le> size_m (vecs ?A 0)" and i2: "0 \<le> size_m (vecs ?B 0)"
    by (simp_all add: world_of_simps)
  have 1: "\<exists>r W'. EmplaceBack int_type 0 7 ?A = Ok r W' \<and>
      Capacity (data_m (vecs W' 0)) = 4 \<and> size_m (vecs W' 0) = 3 \<and>
      elems W' 0 = [Live 10, Live 20, Live 7]"
    using single_insertion_capacity [OF wf1 np1 i1, of 7]
    by (auto simp add: world_of_simps elems_world_of numeral_2_eq_2)
  have 2: "\<exists>r W'. Emplace int_type 0 (1, 1) 7 ?A = Ok r W' \<and>
      Capacity (data_m (vecs W' 0)) = 4 \<and> size_m (vecs W' 0) = 3 \<and>
      elems W' 0 = [Live 10, Live 7, Live 20]"
    using single_insertion_capacity [OF wf1 np1 i1, of 7]
    by (auto simp add: world_of_simps elems_world_of numeral_2_eq_2)
  have 3: "\<exists>r W'. Insert int_type 0 (1, 0) 7 ?B = Ok r W' \<and>
      data_m (vecs W' 0) = \<lparr>buffer_m = 1, capacity_m = 2\<rparr> \<and> size_m (vecs W' 0) = 2 \<and>
      slot_at W' (1, 0) = Some (Live 7) \<and> elems W' 0 = [Live 7, Live 10]"
    using single_insertion_capacity [OF wf2 np2 i2, of 7]
    by (auto simp add: world_of_simps elems_world_of numeral_2_eq_2)
  show ?thesis
    using wf1 wf2 1 2 3 by blast
qed


section \<open>What an insertion returns\<close>

text \<open>
  C10.  Under the same conditions, the reference \<^verbatim>\<open>EmplaceBack\<close> returns points at
  index \<open>Size() - 1\<close> of the buffer the vector has afterwards, and that slot holds the
  new element; after \<^verbatim>\<open>PushBack\<close>, which returns nothing, the same slot holds it.
  The iterator \<^verbatim>\<open>Emplace\<close> and \<^verbatim>\<open>Insert\<close> return points at index \<open>i\<close> of the buffer
  the vector has afterwards, and that slot holds the new element.  This holds in the
  relocating and in the non-relocating branch; the other elements keep their order.
\<close>

theorem insertion_returns_new_element:
  assumes "wf_vector W this" "\<forall>j. throw_plan T (ops W + j) = None"
    "i \<le> size_m (vecs W this)"
  shows
    "(\<exists>r W'. EmplaceBack T this arg W = Ok r W' \<and>
        r = (buffer_m (data_m (vecs W' this)), Size (vecs W' this) - 1) \<and>
        slot_at W' r = Some (Live arg) \<and>
        elems W' this = elems W this @ [Live arg]) \<and>
     (\<exists>W'. PushBack T this arg W = Ok () W' \<and>
        slot_at W' (buffer_m (data_m (vecs W' this)), Size (vecs W' this) - 1) =
          Some (Live arg) \<and>
        elems W' this = elems W this @ [Live arg]) \<and>
     (\<exists>r W'. Emplace T this (buffer_m (data_m (vecs W this)), i) arg W = Ok r W' \<and>
        r = (buffer_m (data_m (vecs W' this)), i) \<and>
        slot_at W' r = Some (Live arg) \<and>
        elems W' this = take i (elems W this) @ [Live arg] @ drop i (elems W this)) \<and>
     (\<exists>r W'. Insert T this (buffer_m (data_m (vecs W this)), i) arg W = Ok r W' \<and>
        r = (buffer_m (data_m (vecs W' this)), i) \<and>
        slot_at W' r = Some (Live arg) \<and>
        elems W' this = take i (elems W this) @ [Live arg] @ drop i (elems W this))"
proof -
  let ?v = "vecs W this"
  let ?n = "size_m ?v"
  let ?D = "if ?n = capacity_m (data_m ?v)
          then \<lparr>buffer_m = next_addr W, capacity_m = max 1 (2 * ?n)\<rparr>
          else data_m ?v"
  have len: "length (elems W this) = ?n"
    using assms(1) by (rule length_elems_wf)
  have cap: "Suc ?n \<le> capacity_m ?D"
    using wf_vector_size_le[OF assms(1)] by (auto split: if_splits)
  from EmplaceBack_ok[OF assms(1,2), of arg]
  obtain W1 blk1 where 1: "EmplaceBack T this arg W = Ok (buffer_m ?D, ?n) W1"
    "vecs W1 = (vecs W)(this := \<lparr>data_m = ?D, size_m = Suc ?n\<rparr>)"
    "heap W1 (buffer_m ?D) = Some blk1" "\<not> freed blk1" "length (slots blk1) = capacity_m ?D"
    "take (Suc ?n) (slots blk1) = elems W this @ [Live arg]"
    by blast
  have "slots blk1 ! ?n = take (Suc ?n) (slots blk1) ! ?n"
    by simp
  then have s1: "slots blk1 ! ?n = Live arg"
    using 1(6) len by (simp add: nth_append)
  have r1: "buffer_m (data_m (vecs W1 this)) = buffer_m ?D" "Size (vecs W1 this) - 1 = ?n"
    using 1(2) by (simp_all add: Size_def)
  have sl1: "slot_at W1 (buffer_m ?D, ?n) = Some (Live arg)"
    using 1(3,4,5) s1 cap by (simp add: slot_at_def)
  have el1: "elems W1 this = elems W this @ [Live arg]"
    using 1(2,3,6) by (simp add: elems_def)
  from Emplace_ok[OF assms, of arg]
  obtain W2 blk2 where 2: "Emplace T this (buffer_m (data_m ?v), i) arg W = Ok (buffer_m ?D, i) W2"
    "vecs W2 = (vecs W)(this := \<lparr>data_m = ?D, size_m = Suc ?n\<rparr>)"
    "heap W2 (buffer_m ?D) = Some blk2" "\<not> freed blk2" "length (slots blk2) = capacity_m ?D"
    "take (Suc ?n) (slots blk2) = take i (elems W this) @ [Live arg] @ drop i (elems W this)"
    by blast
  have "slots blk2 ! i = take (Suc ?n) (slots blk2) ! i"
    using assms(3) by simp
  then have s2: "slots blk2 ! i = Live arg"
    using 2(6) len assms(3) by (simp add: nth_append)
  have r2: "buffer_m (data_m (vecs W2 this)) = buffer_m ?D"
    using 2(2) by simp
  have sl2: "slot_at W2 (buffer_m ?D, i) = Some (Live arg)"
    using 2(3,4,5) s2 cap assms(3) by (simp add: slot_at_def)
  have el2: "elems W2 this = take i (elems W this) @ [Live arg] @ drop i (elems W this)"
    using 2(2,3,6) by (simp add: elems_def)
  have a: "\<exists>r W'. EmplaceBack T this arg W = Ok r W' \<and>
        r = (buffer_m (data_m (vecs W' this)), Size (vecs W' this) - 1) \<and>
        slot_at W' r = Some (Live arg) \<and>
        elems W' this = elems W this @ [Live arg]"
    using 1(1) sl1 el1 by (intro exI[of _ "(buffer_m ?D, ?n)"] exI[of _ W1]) (simp only: r1)
  have b: "\<exists>W'. PushBack T this arg W = Ok () W' \<and>
        slot_at W' (buffer_m (data_m (vecs W' this)), Size (vecs W' this) - 1) =
          Some (Live arg) \<and>
        elems W' this = elems W this @ [Live arg]"
    using 1(1) sl1 el1 unfolding PushBack_def
    by (intro exI[of _ W1]) (simp only: r1 and_then_Ok simp_thms)
  have c: "\<exists>r W'. Emplace T this (buffer_m (data_m ?v), i) arg W = Ok r W' \<and>
        r = (buffer_m (data_m (vecs W' this)), i) \<and>
        slot_at W' r = Some (Live arg) \<and>
        elems W' this = take i (elems W this) @ [Live arg] @ drop i (elems W this)"
    using 2(1) sl2 el2 by (intro exI[of _ "(buffer_m ?D, i)"] exI[of _ W2]) (simp only: r2)
  then have d: "\<exists>r W'. Insert T this (buffer_m (data_m ?v), i) arg W = Ok r W' \<and>
        r = (buffer_m (data_m (vecs W' this)), i) \<and>
        slot_at W' r = Some (Live arg) \<and>
        elems W' this = take i (elems W this) @ [Live arg] @ drop i (elems W this)"
    by (simp add: Insert_def)
  show ?thesis
    using a b c d by blast
qed

theorem insertion_returns_new_element_witness:
  "wf_vector (world_of [Live 10, Live 20] 2) 0 \<and>
   (\<exists>r W'. EmplaceBack int_type 0 7 (world_of [Live 10, Live 20] 2) = Ok r W' \<and>
      slot_at W' r = Some (Live 7) \<and> elems W' 0 = [Live 10, Live 20, Live 7]) \<and>
   (\<exists>r W'. Emplace int_type 0 (1, 1) 7 (world_of [Live 10, Live 20] 2) = Ok r W' \<and>
      slot_at W' r = Some (Live 7) \<and> elems W' 0 = [Live 10, Live 7, Live 20]) \<and>
   wf_vector (world_of [Live 10, Live 20, Raw] 2) 0 \<and>
   (\<exists>r W'. Insert int_type 0 (1, 0) 7 (world_of [Live 10, Live 20, Raw] 2) = Ok r W' \<and>
      slot_at W' r = Some (Live 7) \<and> elems W' 0 = [Live 7, Live 10, Live 20])"
proof -
  have wf1: "wf_vector (world_of [Live 10, Live 20] 2) 0"
    and wf2: "wf_vector (world_of [Live 10, Live 20, Raw] 2) 0"
    by (simp_all add: wf_world_of)
  have np1: "\<forall>j. throw_plan int_type (ops (world_of [Live 10, Live 20] 2) + j) = None"
    and np2: "\<forall>j. throw_plan int_type (ops (world_of [Live 10, Live 20, Raw] 2) + j) = None"
    by (simp_all add: int_type_def)
  have i1: "1 \<le> size_m (vecs (world_of [Live 10, Live 20] 2) 0)"
    and i2: "0 \<le> size_m (vecs (world_of [Live 10, Live 20, Raw] 2) 0)"
    by (simp_all add: world_of_simps)
  show ?thesis
    using wf1 wf2 insertion_returns_new_element [OF wf1 np1 i1, of 7]
      insertion_returns_new_element [OF wf2 np2 i2, of 7]
    by (auto simp add: world_of_simps elems_world_of numeral_2_eq_2)
qed

section \<open>Appending with relocation when a constructor throws\<close>






section \<open>Copy assignment\<close>

lemma overwrite_whole: "length zs = length ys \<Longrightarrow> overwrite ys 0 zs = zs"
  by (simp add: overwrite_def)

lemma Vector_copy_construct_ok:
  assumes wf: "wf_vector W rhs" and pos: "0 < size_m (vecs W rhs)"
    and np: "\<forall>k. throw_plan T (ops W + k) = None"
  shows "Vector_copy_construct T (vecs W rhs) W =
     Ok \<lparr>data_m = \<lparr>buffer_m = next_addr W, capacity_m = size_m (vecs W rhs)\<rparr>,
         size_m = size_m (vecs W rhs)\<rparr>
        (W\<lparr>heap := (heap W)(next_addr W \<mapsto> \<lparr>freed = False, slots = elems W rhs\<rparr>),
           next_addr := Suc (next_addr W),
           ops := ops W + size_m (vecs W rhs)\<rparr>)"
proof -
  let ?r = "vecs W rhs"
  let ?as = "buffer_m (data_m ?r)" and ?m = "size_m ?r"
  let ?a' = "next_addr W"
  have le: "?m \<le> capacity_m (data_m ?r)" by (rule wf_vector_size_le[OF wf])
  from wf pos le obtain sb where sb: "heap W ?as = Some sb" "\<not> freed sb"
    "length (slots sb) = capacity_m (data_m ?r)"
    "\<forall>j<?m. slots sb ! j \<noteq> Raw" "?as < ?a'" "elems W rhs = take ?m (slots sb)"
    by (elim wf_vectorD) auto
  let ?F = "\<lparr>freed = False, slots = replicate ?m (Raw :: 'a slot)\<rparr>"
  let ?W1 = "W\<lparr>heap := (heap W)(?a' \<mapsto> ?F), next_addr := Suc ?a'\<rparr>"
  have ctor: "RawMemory_ctor ?m W = (\<lparr>buffer_m = ?a', capacity_m = ?m\<rparr>, ?W1)"
    using pos by (simp add: RawMemory_ctor_nonzero)
  have "uninitialized_copy_loop T (?as, 0) (?a', 0) 0 ?m ?W1 =
     Ok () (?W1\<lparr>heap := (heap ?W1)(?a' \<mapsto>
                 ?F\<lparr>slots := overwrite (slots ?F) (0 + 0) (take ?m (drop (0 + 0) (slots sb)))\<rparr>),
              ops := ops ?W1 + ?m\<rparr>)"
  proof (rule uninit_copy_ok)
    show "heap ?W1 ?as = Some sb" using sb by simp
    show "heap ?W1 ?a' = Some ?F" by simp
    show "\<forall>j<?m. throw_plan T (ops ?W1 + j) = None" using np by simp
  qed (use sb le in auto)
  moreover have "overwrite (slots ?F) (0 + 0) (take ?m (drop (0 + 0) (slots sb))) = elems W rhs"
    using sb le by (simp add: overwrite_whole)
  ultimately have cp: "uninitialized_copy_n T (?as, 0) ?m (?a', 0) ?W1 =
     Ok () (?W1\<lparr>heap := (heap ?W1)(?a' \<mapsto> ?F\<lparr>slots := elems W rhs\<rparr>), ops := ops ?W1 + ?m\<rparr>)"
    by (simp add: uninitialized_copy_n_def)
  show ?thesis
    using ctor cp
    by (auto simp add: Vector_copy_construct_def Let_def Size_def GetAddress_def fun_eq_iff)
qed

lemma Vector_copy_construct_throw:
  assumes wf: "wf_vector W rhs" and j: "j < size_m (vecs W rhs)"
    and before: "\<forall>k<j. throw_plan T (ops W + k) = None"
    and at: "throw_plan T (ops W + j) = Some e"
  shows "Vector_copy_construct T (vecs W rhs) W =
     Throw e
        (W\<lparr>heap := (heap W)(next_addr W \<mapsto>
                 \<lparr>freed = True, slots = replicate (size_m (vecs W rhs)) Raw\<rparr>),
           next_addr := Suc (next_addr W),
           ops := Suc (ops W + j)\<rparr>)"
proof -
  let ?r = "vecs W rhs"
  let ?as = "buffer_m (data_m ?r)" and ?m = "size_m ?r"
  let ?a' = "next_addr W"
  have pos: "0 < ?m" using j by simp
  have le: "?m \<le> capacity_m (data_m ?r)" by (rule wf_vector_size_le[OF wf])
  from wf pos le obtain sb where sb: "heap W ?as = Some sb" "\<not> freed sb"
    "length (slots sb) = capacity_m (data_m ?r)"
    "\<forall>j<?m. slots sb ! j \<noteq> Raw" "?as < ?a'"
    by (elim wf_vectorD) auto
  let ?F = "\<lparr>freed = False, slots = replicate ?m (Raw :: 'a slot)\<rparr>"
  let ?W1 = "W\<lparr>heap := (heap W)(?a' \<mapsto> ?F), next_addr := Suc ?a'\<rparr>"
  have ctor: "RawMemory_ctor ?m W = (\<lparr>buffer_m = ?a', capacity_m = ?m\<rparr>, ?W1)"
    using pos by (simp add: RawMemory_ctor_nonzero)
  let ?W2 = "?W1\<lparr>heap := (heap ?W1)(?a' \<mapsto>
                 ?F\<lparr>slots := overwrite (slots ?F) 0 (replicate (0 + j) Raw)\<rparr>),
              ops := Suc (ops ?W1 + j)\<rparr>"
  have "uninitialized_copy_loop T (?as, 0) (?a', 0) 0 ?m ?W1 = Throw e ?W2"
  proof (rule uninit_copy_throw)
    show "heap ?W1 ?as = Some sb" using sb by simp
    show "heap ?W1 ?a' = Some ?F" by simp
    show "\<forall>j'\<le>j. slots sb ! (0 + 0 + j') \<noteq> Raw" using sb(4) j by simp
    show "\<forall>j'<j. throw_plan T (ops ?W1 + j') = None" using before by simp
    show "throw_plan T (ops ?W1 + j) = Some e" using at by simp
  qed (use sb le j in auto)
  moreover have "overwrite (slots ?F) 0 (replicate (0 + j) Raw) = replicate ?m Raw"
    using j by (intro nth_equalityI) (auto simp: nth_overwrite)
  ultimately have cp: "uninitialized_copy_n T (?as, 0) ?m (?a', 0) ?W1 =
     Throw e (?W1\<lparr>ops := Suc (ops ?W1 + j)\<rparr>)"
    by (auto simp add: uninitialized_copy_n_def fun_eq_iff)
  have dt: "RawMemory_dtor \<lparr>buffer_m = ?a', capacity_m = ?m\<rparr> (?W1\<lparr>ops := Suc (ops ?W1 + j)\<rparr>) =
      Ok () ((?W1\<lparr>ops := Suc (ops ?W1 + j)\<rparr>)\<lparr>heap := (heap (?W1\<lparr>ops := Suc (ops ?W1 + j)\<rparr>))(?a' \<mapsto> ?F\<lparr>freed := True\<rparr>)\<rparr>)"
    using wf by (intro RawMemory_dtor_ok) (auto simp: wf_vector_def Let_def nullptr_def)
  show ?thesis
    using ctor cp dt
    by (auto simp add: Vector_copy_construct_def Let_def Size_def GetAddress_def fun_eq_iff)
qed


lemma wf_vector_null:
  assumes "wf_vector W this" "capacity_m (data_m (vecs W this)) = 0"
  shows "buffer_m (data_m (vecs W this)) = nullptr" "size_m (vecs W this) = 0"
  using assms by (auto simp: wf_vector_def Let_def split: if_splits)

lemma Vector_dtor_ok:
  assumes "heap W (buffer_m (data_m v)) = Some b" "\<not> freed b" "buffer_m (data_m v) \<noteq> nullptr"
    "size_m v \<le> length (slots b)" "\<forall>j<size_m v. slots b ! j \<noteq> Raw"
  shows "Vector_dtor T v W =
     Ok () (W\<lparr>heap := (heap W)(buffer_m (data_m v) \<mapsto>
              \<lparr>freed = True, slots = overwrite (slots b) 0 (replicate (size_m v) Raw)\<rparr>)\<rparr>)"
proof -
  let ?a = "buffer_m (data_m v)"
  let ?W1 = "W\<lparr>heap := (heap W)(?a \<mapsto> b\<lparr>slots := overwrite (slots b) 0 (replicate (size_m v) Raw)\<rparr>)\<rparr>"
  have d: "destroy_n T (?a, 0) (size_m v) W = Ok () ?W1"
    using assms by (intro destroy_n_ok) auto
  have "operator_delete (?a, 0) ?W1 =
      Ok () (?W1\<lparr>heap := (heap ?W1)(?a \<mapsto>
          (b\<lparr>slots := overwrite (slots b) 0 (replicate (size_m v) Raw)\<rparr>)\<lparr>freed := True\<rparr>)\<rparr>)"
    using assms(2,3) by (simp add: operator_delete_def)
  then show ?thesis
    using d assms(2,3)
    by (auto simp add: Vector_dtor_def GetAddress_def RawMemory_dtor_def Deallocate_def fun_eq_iff)
qed

lemma Vector_dtor_null:
  "buffer_m (data_m v) = nullptr \<Longrightarrow> Vector_dtor T v W = Ok () W"
  by (simp add: Vector_dtor_def GetAddress_def RawMemory_dtor_def Deallocate_def)

lemma assign_copy_realloc_ok:
  assumes ne: "this \<noteq> rhs" and wf: "wf_vector W this" and wfr: "wf_vector W rhs"
    and own: "buffer_m (data_m (vecs W this)) \<noteq> buffer_m (data_m (vecs W rhs)) \<or>
              buffer_m (data_m (vecs W this)) = nullptr"
    and gt: "capacity_m (data_m (vecs W this)) < size_m (vecs W rhs)"
    and np: "\<forall>k. throw_plan T (ops W + k) = None"
  shows "\<exists>W'. Vector_assign_copy T this rhs W = Ok () W' \<and>
     vecs W' = (vecs W)(this :=
        \<lparr>data_m = \<lparr>buffer_m = next_addr W, capacity_m = size_m (vecs W rhs)\<rparr>,
         size_m = size_m (vecs W rhs)\<rparr>) \<and>
     heap W' (next_addr W) = Some \<lparr>freed = False, slots = elems W rhs\<rparr> \<and>
     heap W' (buffer_m (data_m (vecs W rhs))) = heap W (buffer_m (data_m (vecs W rhs))) \<and>
     next_addr W' = Suc (next_addr W) \<and>
     (buffer_m (data_m (vecs W this)) = nullptr \<or>
      map_option freed (heap W' (buffer_m (data_m (vecs W this)))) = Some True) \<and>
     (\<forall>x. x \<noteq> next_addr W \<and> x \<noteq> buffer_m (data_m (vecs W this)) \<longrightarrow>
          heap W' x = heap W x)"
proof -
  let ?v = "vecs W this" and ?r = "vecs W rhs"
  let ?a = "buffer_m (data_m ?v)" and ?n = "size_m ?v" and ?c = "capacity_m (data_m ?v)"
  let ?as = "buffer_m (data_m ?r)" and ?m = "size_m ?r"
  let ?a' = "next_addr W"
  have pos: "0 < ?m" using gt by simp
  have ler: "?m \<le> capacity_m (data_m ?r)" by (rule wf_vector_size_le[OF wfr])
  have le: "?n \<le> ?c" by (rule wf_vector_size_le[OF wf])
  from wfr pos ler have asn: "?as \<noteq> nullptr" "?as < ?a'"
    by (auto elim: wf_vectorD)
  let ?temp = "\<lparr>data_m = \<lparr>buffer_m = ?a', capacity_m = ?m\<rparr>, size_m = ?m\<rparr>"
  let ?W2 = "W\<lparr>heap := (heap W)(?a' \<mapsto> \<lparr>freed = False, slots = elems W rhs\<rparr>),
           next_addr := Suc ?a', ops := ops W + ?m\<rparr>"
  have cc: "Vector_copy_construct T ?r W = Ok ?temp ?W2"
    using wfr pos np by (rule Vector_copy_construct_ok)
  let ?W3 = "?W2\<lparr>vecs := (vecs ?W2)(this := ?temp)\<rparr>"
  have "\<exists>W4. Vector_dtor T ?v ?W3 = Ok () W4 \<and> vecs W4 = vecs ?W3 \<and>
      next_addr W4 = Suc ?a' \<and> heap W4 ?a' = heap ?W3 ?a' \<and> heap W4 ?as = heap W ?as \<and>
      (?a = nullptr \<or> map_option freed (heap W4 ?a) = Some True) \<and>
      (\<forall>x. x \<noteq> ?a \<longrightarrow> heap W4 x = heap ?W3 x)"
  proof (cases "?c = 0")
    case True
    then have "?a = nullptr" using wf by (rule wf_vector_null(1)[rotated])
    then show ?thesis
      using asn by (simp add: Vector_dtor_null)
  next
    case False
    with wf obtain b where b: "heap W ?a = Some b" "\<not> freed b" "length (slots b) = ?c"
      "\<forall>j<?n. slots b ! j \<noteq> Raw" "?a \<noteq> nullptr" "?a < ?a'"
      by (elim wf_vectorD) auto
    have "Vector_dtor T ?v ?W3 =
       Ok () (?W3\<lparr>heap := (heap ?W3)(?a \<mapsto>
              \<lparr>freed = True, slots = overwrite (slots b) 0 (replicate ?n Raw)\<rparr>)\<rparr>)"
      using b le by (intro Vector_dtor_ok) auto
    then show ?thesis
      using b own asn by simp
  qed
  then obtain W4 where W4: "Vector_dtor T ?v ?W3 = Ok () W4" "vecs W4 = vecs ?W3"
      "next_addr W4 = Suc ?a'" "heap W4 ?a' = heap ?W3 ?a'" "heap W4 ?as = heap W ?as"
      "?a = nullptr \<or> map_option freed (heap W4 ?a) = Some True"
      "\<forall>x. x \<noteq> ?a \<longrightarrow> heap W4 x = heap ?W3 x"
    by blast
  let ?W' = "W4\<lparr>vecs := (vecs W4)(this := (vecs W4 this)\<lparr>size_m := size_m (vecs W4 rhs)\<rparr>)\<rparr>"
  have res: "Vector_assign_copy T this rhs W = Ok () ?W'"
    using ne gt cc W4(1)
    by (simp add: Vector_assign_copy_def Capacity_def Let_def)
  have v': "vecs ?W' = (vecs W)(this := ?temp)"
    using W4(2) ne by (auto simp: fun_eq_iff)
  show ?thesis
    using res v' W4 by (intro exI[of _ ?W']) simp
qed

lemma assign_copy_realloc_throw:
  assumes ne: "this \<noteq> rhs" and wf: "wf_vector W this" and wfr: "wf_vector W rhs"
    and gt: "capacity_m (data_m (vecs W this)) < size_m (vecs W rhs)"
    and j: "j < size_m (vecs W rhs)"
    and before: "\<forall>k<j. throw_plan T (ops W + k) = None"
    and at: "throw_plan T (ops W + j) = Some e"
  shows "\<exists>W' blk. Vector_assign_copy T this rhs W = Throw e W' \<and>
     vecs W' = vecs W \<and> heap W' = (heap W)(next_addr W \<mapsto> blk) \<and> freed blk \<and>
     elems W' this = elems W this"
proof -
  let ?a' = "next_addr W"
  let ?blk = "\<lparr>freed = True, slots = replicate (size_m (vecs W rhs)) (Raw :: 'a slot)\<rparr>"
  let ?W' = "W\<lparr>heap := (heap W)(?a' \<mapsto> ?blk), next_addr := Suc ?a', ops := Suc (ops W + j)\<rparr>"
  have cc: "Vector_copy_construct T (vecs W rhs) W = Throw e ?W'"
    using wfr j before at by (rule Vector_copy_construct_throw)
  have res: "Vector_assign_copy T this rhs W = Throw e ?W'"
    using ne gt cc by (simp add: Vector_assign_copy_def Capacity_def Let_def)
  have "elems ?W' this = elems W this"
  proof (cases "capacity_m (data_m (vecs W this)) = 0")
    case True
    then have "size_m (vecs W this) = 0" using wf by (rule wf_vector_null(2)[rotated])
    then show ?thesis by (simp add: elems_size_0)
  next
    case False
    with wf have "buffer_m (data_m (vecs W this)) < ?a'"
      by (auto elim: wf_vectorD)
    then show ?thesis by (simp add: elems_def split: option.splits)
  qed
  then show ?thesis
    using res by (intro exI[of _ ?W'] exI[of _ ?blk]) simp
qed

lemma copy_assign_prefix:
  assumes wf: "wf_vector W this" and wfr: "wf_vector W rhs"
    and own: "buffer_m (data_m (vecs W this)) \<noteq> buffer_m (data_m (vecs W rhs)) \<or>
              buffer_m (data_m (vecs W this)) = nullptr"
    and b: "heap W (buffer_m (data_m (vecs W this))) = Some b"
    and cpos: "0 < capacity_m (data_m (vecs W this))"
    and np: "\<forall>k. throw_plan T (ops W + k) = None"
  shows "copy_assign_loop T (vecs W this) (vecs W rhs) 0
           (min (size_m (vecs W this)) (size_m (vecs W rhs))) W =
     Ok () (W\<lparr>heap := (heap W)(buffer_m (data_m (vecs W this)) \<mapsto>
                 b\<lparr>slots := overwrite (slots b) 0
                     (take (min (size_m (vecs W this)) (size_m (vecs W rhs))) (elems W rhs))\<rparr>),
              ops := ops W + min (size_m (vecs W this)) (size_m (vecs W rhs))\<rparr>)"
proof (cases "min (size_m (vecs W this)) (size_m (vecs W rhs)) = 0")
  case True
  then show ?thesis using b by (simp add: map_upd_triv)
next
  case False
  let ?v = "vecs W this" and ?r = "vecs W rhs"
  let ?k = "min (size_m ?v) (size_m ?r)"
  have pos: "0 < size_m ?r" "0 < size_m ?v" using False by auto
  have ler: "size_m ?r \<le> capacity_m (data_m ?r)" by (rule wf_vector_size_le[OF wfr])
  have le: "size_m ?v \<le> capacity_m (data_m ?v)" by (rule wf_vector_size_le[OF wf])
  from wfr pos ler obtain sb where sb: "heap W (buffer_m (data_m ?r)) = Some sb" "\<not> freed sb"
    "length (slots sb) = capacity_m (data_m ?r)"
    "\<forall>j<size_m ?r. slots sb ! j \<noteq> Raw" "elems W rhs = take (size_m ?r) (slots sb)"
    by (elim wf_vectorD) auto
  from wf cpos obtain b' where b': "heap W (buffer_m (data_m ?v)) = Some b'" "\<not> freed b'"
    "length (slots b') = capacity_m (data_m ?v)"
    "\<forall>j<size_m ?v. slots b' ! j \<noteq> Raw" "buffer_m (data_m ?v) \<noteq> nullptr"
    by (elim wf_vectorD) auto
  with b have bp: "\<not> freed b" "length (slots b) = capacity_m (data_m ?v)"
    "\<forall>j<size_m ?v. slots b ! j \<noteq> Raw" "buffer_m (data_m ?v) \<noteq> nullptr"
    by auto
  have "copy_assign_loop T ?v ?r 0 ?k W =
     Ok () (W\<lparr>heap := (heap W)(buffer_m (data_m ?v) \<mapsto>
                 b\<lparr>slots := overwrite (slots b) 0 (take ?k (drop 0 (slots sb)))\<rparr>),
              ops := ops W + ?k\<rparr>)"
  proof (rule copy_assign_loop_ok)
    show "buffer_m (data_m ?r) \<noteq> buffer_m (data_m ?v)"
      using own bp(4) by auto
    show "\<forall>j<?k. slots sb ! (0 + j) \<noteq> Raw" using sb(4) by simp
    show "\<forall>j<?k. slots b ! (0 + j) \<noteq> Raw" using bp(3) by simp
    show "\<forall>j<?k. throw_plan T (ops W + j) = None" using np by simp
  qed (use sb b bp le ler in auto)
  moreover have "take ?k (drop 0 (slots sb)) = take ?k (elems W rhs)"
    using sb(5) by (simp add: min.absorb1)
  ultimately show ?thesis by simp
qed

lemma assign_copy_in_place_ok:
  assumes ne: "this \<noteq> rhs" and wf: "wf_vector W this" and wfr: "wf_vector W rhs"
    and own: "buffer_m (data_m (vecs W this)) \<noteq> buffer_m (data_m (vecs W rhs)) \<or>
              buffer_m (data_m (vecs W this)) = nullptr"
    and fits: "size_m (vecs W rhs) \<le> capacity_m (data_m (vecs W this))"
    and np: "\<forall>k. throw_plan T (ops W + k) = None"
  shows "\<exists>W'. Vector_assign_copy T this rhs W = Ok () W' \<and>
     vecs W' = (vecs W)(this := (vecs W this)\<lparr>size_m := size_m (vecs W rhs)\<rparr>) \<and>
     next_addr W' = next_addr W \<and>
     elems W' this = elems W rhs \<and>
     (\<forall>x. x \<noteq> buffer_m (data_m (vecs W this)) \<longrightarrow> heap W' x = heap W x) \<and>
     (\<forall>i. size_m (vecs W rhs) \<le> i \<and> i < size_m (vecs W this) \<longrightarrow>
          slot_at W' (buffer_m (data_m (vecs W this)), i) = Some Raw) \<and>
     (\<forall>i<size_m (vecs W rhs).
          slot_at W' (buffer_m (data_m (vecs W this)), i) = Some (elems W rhs ! i)) \<and>
     (capacity_m (data_m (vecs W this)) \<noteq> 0 \<longrightarrow>
        (\<exists>blk. heap W' (buffer_m (data_m (vecs W this))) = Some blk \<and> \<not> freed blk \<and>
           length (slots blk) = capacity_m (data_m (vecs W this))))"
proof (cases "capacity_m (data_m (vecs W this)) = 0")
  case True
  let ?v = "vecs W this"
  have z: "size_m ?v = 0" "size_m (vecs W rhs) = 0"
    using True fits wf_vector_null(2)[OF wf] by auto
  let ?W' = "W\<lparr>vecs := (vecs W)(this := ?v\<lparr>size_m := size_m (vecs W rhs)\<rparr>)\<rparr>"
  have "Vector_assign_copy T this rhs W = Ok () ?W'"
    using ne z True by (simp add: Vector_assign_copy_def Capacity_def Let_def)
  then show ?thesis
    using z True by (intro exI[of _ ?W']) (simp add: elems_size_0)
next
  case False
  let ?v = "vecs W this" and ?r = "vecs W rhs"
  let ?a = "buffer_m (data_m ?v)" and ?n = "size_m ?v" and ?c = "capacity_m (data_m ?v)"
  let ?as = "buffer_m (data_m ?r)" and ?m = "size_m ?r"
  let ?E = "elems W rhs"
  let ?k = "min ?n ?m"
  have le: "?n \<le> ?c" by (rule wf_vector_size_le[OF wf])
  have ler: "?m \<le> capacity_m (data_m ?r)" by (rule wf_vector_size_le[OF wfr])
  have lenE: "length ?E = ?m" by (rule length_elems_wf[OF wfr])
  from wf False obtain b where b: "heap W ?a = Some b" "\<not> freed b" "length (slots b) = ?c"
    "\<forall>j<?n. slots b ! j \<noteq> Raw" "?a \<noteq> nullptr"
    by (elim wf_vectorD) auto
  let ?S1 = "overwrite (slots b) 0 (take ?k ?E)"
  let ?W1 = "W\<lparr>heap := (heap W)(?a \<mapsto> b\<lparr>slots := ?S1\<rparr>), ops := ops W + ?k\<rparr>"
  have loop: "copy_assign_loop T ?v ?r 0 ?k W = Ok () ?W1"
    using wf wfr own b(1) False np by (intro copy_assign_prefix) auto
  have len1: "length ?S1 = ?c"
    using lenE le fits b(3) by (subst length_overwrite) auto
  have S1_out: "?S1 ! j = slots b ! j" if "?k \<le> j" "j < ?c" for j
    using that lenE le fits b(3) by (subst nth_overwrite) auto
  have "\<exists>W2 S. (if ?n > ?m
          then (case RawMemory_plus (data_m ?v) ?m of
                  None \<Rightarrow> UB
                | Some p \<Rightarrow> destroy_n T p (?n - ?m) ?W1)
          else if ?n < ?m
          then (case RawMemory_plus (data_m ?r) ?n of
                  None \<Rightarrow> UB
                | Some s \<Rightarrow>
                    (case RawMemory_plus (data_m ?v) ?n of
                       None \<Rightarrow> UB
                     | Some d \<Rightarrow> uninitialized_copy_n T s (?m - ?n) d ?W1))
          else Ok () ?W1) = Ok () W2 \<and>
      vecs W2 = vecs W \<and> next_addr W2 = next_addr W \<and>
      heap W2 = (heap W)(?a \<mapsto> b\<lparr>slots := S\<rparr>) \<and> length S = ?c \<and> take ?m S = ?E \<and>
      (\<forall>i. ?m \<le> i \<and> i < ?n \<longrightarrow> S ! i = Raw)"
  proof -
    consider (shrink) "?m < ?n" | (grow) "?n < ?m" | (same) "?n = ?m"
      by linarith
    then show ?thesis
    proof cases
      case shrink
      then have k: "?k = ?m" by simp
      let ?S2 = "overwrite ?S1 ?m (replicate (?n - ?m) Raw)"
      have d: "destroy_n T (?a, ?m) (?n - ?m) ?W1 =
          Ok () (?W1\<lparr>heap := (heap ?W1)(?a \<mapsto>
              (b\<lparr>slots := ?S1\<rparr>)\<lparr>slots := overwrite (slots (b\<lparr>slots := ?S1\<rparr>)) ?m (replicate (?n - ?m) Raw)\<rparr>)\<rparr>)"
      proof (rule destroy_n_ok)
        show "trivially_destructible T \<or>
            (\<forall>j<?n - ?m. slots (b\<lparr>slots := ?S1\<rparr>) ! (?m + j) \<noteq> Raw)"
          using S1_out b(4) k le shrink by simp
        show "?m + (?n - ?m) \<le> length (slots (b\<lparr>slots := ?S1\<rparr>))"
          using len1 le shrink by simp
      qed (use b in auto)
      have len2: "length ?S2 = ?c"
        using len1 le shrink by (subst length_overwrite) auto
      have "take (?m + 0) ?S2 = take ?m ?S1 @ take 0 (replicate (?n - ?m) Raw)"
        using len1 le shrink by (intro take_overwrite_prefix) auto
      moreover have "take (0 + ?m) ?S1 = take 0 (slots b) @ take ?m (take ?k ?E)"
        using lenE le fits b(3) k by (intro take_overwrite_prefix) auto
      ultimately have tk: "take ?m ?S2 = ?E"
        using lenE k by simp
      have raw: "?S2 ! i = Raw" if "?m \<le> i" "i < ?n" for i
        using that len1 le by (subst nth_overwrite) auto
      show ?thesis
        using shrink d fits len2 tk raw
        by (intro exI[of _ "?W1\<lparr>heap := (heap ?W1)(?a \<mapsto> b\<lparr>slots := ?S2\<rparr>)\<rparr>"] exI[of _ ?S2])
          (auto simp add: RawMemory_plus_def fun_eq_iff)
    next
      case grow
      then have k: "?k = ?n" and pos: "0 < ?m" by simp_all
      from wfr pos ler obtain sb where sb: "heap W ?as = Some sb" "\<not> freed sb"
        "length (slots sb) = capacity_m (data_m ?r)"
        "\<forall>j<?m. slots sb ! j \<noteq> Raw" "?E = take ?m (slots sb)"
        by (elim wf_vectorD) auto
      have asa: "?as \<noteq> ?a" using own b(5) by auto
      let ?S2 = "overwrite ?S1 ?n (drop ?n ?E)"
      have "uninitialized_copy_loop T (?as, ?n) (?a, ?n) 0 (?m - ?n) ?W1 =
         Ok () (?W1\<lparr>heap := (heap ?W1)(?a \<mapsto>
                 (b\<lparr>slots := ?S1\<rparr>)\<lparr>slots := overwrite (slots (b\<lparr>slots := ?S1\<rparr>)) (?n + 0)
                     (take (?m - ?n) (drop (?n + 0) (slots sb)))\<rparr>),
              ops := ops ?W1 + (?m - ?n)\<rparr>)"
      proof (rule uninit_copy_ok)
        show "heap ?W1 ?as = Some sb" using sb asa by simp
        show "\<forall>j<?m - ?n. slots sb ! (?n + 0 + j) \<noteq> Raw" using sb(4) by simp
        show "\<forall>j<?m - ?n. throw_plan T (ops ?W1 + j) = None"
        proof (intro allI impI)
          fix j
          have "throw_plan T (ops W + (?k + j)) = None" using np by blast
          then show "throw_plan T (ops ?W1 + j) = None" by (simp add: add.assoc)
        qed
        show "?n + 0 + (?m - ?n) \<le> length (slots (b\<lparr>slots := ?S1\<rparr>))"
          using len1 fits grow by simp
      qed (use sb b asa ler grow in auto)
      moreover have "take (?m - ?n) (drop (?n + 0) (slots sb)) = drop ?n ?E"
        using sb(5) by (simp add: drop_take)
      ultimately have cp: "uninitialized_copy_n T (?as, ?n) (?m - ?n) (?a, ?n) ?W1 =
          Ok () (?W1\<lparr>heap := (heap ?W1)(?a \<mapsto> b\<lparr>slots := ?S2\<rparr>),
                  ops := ops ?W1 + (?m - ?n)\<rparr>)"
        by (simp add: uninitialized_copy_n_def)
      have ld: "length (drop ?n ?E) = ?m - ?n" using lenE by simp
      have len2: "length ?S2 = ?c"
        using len1 fits grow ld by (subst length_overwrite) auto
      have "take (?n + (?m - ?n)) ?S2 = take ?n ?S1 @ take (?m - ?n) (drop ?n ?E)"
        using len1 fits grow ld by (intro take_overwrite_prefix) auto
      moreover have "take (0 + ?n) ?S1 = take 0 (slots b) @ take ?n (take ?k ?E)"
        using lenE le fits b(3) k grow by (intro take_overwrite_prefix) auto
      ultimately have tk: "take ?m ?S2 = ?E"
        using lenE k grow by simp
      show ?thesis
        using grow cp len2 tk ler le
        by (intro exI[of _ "?W1\<lparr>heap := (heap ?W1)(?a \<mapsto> b\<lparr>slots := ?S2\<rparr>),
                  ops := ops ?W1 + (?m - ?n)\<rparr>"] exI[of _ ?S2])
          (auto simp add: RawMemory_plus_def fun_eq_iff)
    next
      case same
      then have k: "?k = ?m" by simp
      have "take (0 + ?m) ?S1 = take 0 (slots b) @ take ?m (take ?k ?E)"
        using lenE le fits b(3) k by (intro take_overwrite_prefix) auto
      then have tk: "take ?m ?S1 = ?E"
        using lenE k by simp
      show ?thesis
        using same len1 tk
        by (intro exI[of _ ?W1] exI[of _ ?S1]) (auto simp add: fun_eq_iff)
    qed
  qed
  then obtain W2 S where W2: "(if ?n > ?m
          then (case RawMemory_plus (data_m ?v) ?m of
                  None \<Rightarrow> UB
                | Some p \<Rightarrow> destroy_n T p (?n - ?m) ?W1)
          else if ?n < ?m
          then (case RawMemory_plus (data_m ?r) ?n of
                  None \<Rightarrow> UB
                | Some s \<Rightarrow>
                    (case RawMemory_plus (data_m ?v) ?n of
                       None \<Rightarrow> UB
                     | Some d \<Rightarrow> uninitialized_copy_n T s (?m - ?n) d ?W1))
          else Ok () ?W1) = Ok () W2"
    and f2: "vecs W2 = vecs W" "next_addr W2 = next_addr W"
      "heap W2 = (heap W)(?a \<mapsto> b\<lparr>slots := S\<rparr>)" "length S = ?c" "take ?m S = ?E"
      "\<forall>i. ?m \<le> i \<and> i < ?n \<longrightarrow> S ! i = Raw"
    by blast
  let ?W' = "W2\<lparr>vecs := (vecs W2)(this := (vecs W2 this)\<lparr>size_m := size_m (vecs W2 rhs)\<rparr>)\<rparr>"
  have res: "Vector_assign_copy T this rhs W = Ok () ?W'"
    using ne fits loop W2
    by (simp add: Vector_assign_copy_def Capacity_def Let_def)
  have "elems ?W' this = ?E"
    using f2 ne by (simp add: elems_def)
  moreover have "slot_at ?W' (?a, i) = Some Raw" if "?m \<le> i" "i < ?n" for i
    using that f2 b(2) le by (simp add: slot_at_def)
  moreover have "slot_at ?W' (?a, i) = Some (?E ! i)" if "i < ?m" for i
  proof -
    have "S ! i = take ?m S ! i"
      using that by simp
    then have "S ! i = ?E ! i"
      using f2(5) by simp
    then show ?thesis
      using that f2 b(2) fits by (simp add: slot_at_def)
  qed
  moreover have "\<exists>blk. heap ?W' ?a = Some blk \<and> \<not> freed blk \<and> length (slots blk) = ?c"
    using f2 b(2) by simp
  ultimately show ?thesis
    using res f2 ne by (intro exI[of _ ?W']) auto
qed

lemma two_vectors_simps:
  "vecs (two_vectors xs n ys m) 0 =
     \<lparr>data_m = \<lparr>buffer_m = 1, capacity_m = length xs\<rparr>, size_m = n\<rparr>"
  "vecs (two_vectors xs n ys m) 1 =
     \<lparr>data_m = \<lparr>buffer_m = 2, capacity_m = length ys\<rparr>, size_m = m\<rparr>"
  "vecs (two_vectors xs n ys m) (Suc 0) =
     \<lparr>data_m = \<lparr>buffer_m = 2, capacity_m = length ys\<rparr>, size_m = m\<rparr>"
  "ops (two_vectors xs n ys m) = 0"
  "next_addr (two_vectors xs n ys m) = 3"
  by (simp_all add: two_vectors_def)

lemma wf_two_vectors:
  assumes "xs \<noteq> []" "n \<le> length xs" "list_all (\<lambda>s. s \<noteq> Raw) (take n xs)"
    "ys \<noteq> []" "m \<le> length ys" "list_all (\<lambda>s. s \<noteq> Raw) (take m ys)"
  shows "wf_vector (two_vectors xs n ys m) 0" "wf_vector (two_vectors xs n ys m) (Suc 0)"
  using assms by (simp_all add: wf_vector_def two_vectors_def nullptr_def)

lemma elems_two_vectors:
  "elems (two_vectors xs n ys m) 0 = take n xs" "elems (two_vectors xs n ys m) 1 = take m ys"
  "elems (two_vectors xs n ys m) (Suc 0) = take m ys"
  by (simp_all add: elems_def two_vectors_def)

text \<open>
  C7.  Copy assignment \<^verbatim>\<open>*this = rhs\<close> between two distinct well-formed vectors that do
  not share a buffer.  When \<open>rhs.Size()\<close> exceeds \<open>Capacity()\<close>, the assignment is
  copy-and-swap: if no copy constructor throws, the target owns a fresh buffer of
  capacity \<open>rhs.Size()\<close>, an allocated block that is not released and holds exactly the
  copies of the elements of \<open>rhs\<close>, the old buffer is released, and no other block
  changes; if one throws, the exception leaves the operator and the target (its fields,
  its buffer, its elements) is unchanged.  When \<open>rhs.Size() \<le> Capacity()\<close> and nothing
  throws, the buffer and the capacity are kept and the block stays allocated, the size
  becomes \<open>rhs.Size()\<close>, slot \<open>i\<close> of the block holds element \<open>i\<close> of \<open>rhs\<close> for every
  \<open>i < rhs.Size()\<close>, the slots from \<open>rhs.Size()\<close> up to the old size hold no object any
  more, and no other block changes.  In all cases \<open>rhs\<close> is left as it was.
\<close>

theorem copy_assignment:
  assumes "this \<noteq> rhs" "wf_vector W this" "wf_vector W rhs"
    "buffer_m (data_m (vecs W this)) \<noteq> buffer_m (data_m (vecs W rhs)) \<or>
     buffer_m (data_m (vecs W this)) = nullptr"
  shows
    "(capacity_m (data_m (vecs W this)) < size_m (vecs W rhs) \<longrightarrow>
        ((\<forall>k. throw_plan T (ops W + k) = None) \<longrightarrow>
           (\<exists>W'. Vector_assign_copy T this rhs W = Ok () W' \<and>
              vecs W' this =
                \<lparr>data_m = \<lparr>buffer_m = next_addr W, capacity_m = size_m (vecs W rhs)\<rparr>,
                 size_m = size_m (vecs W rhs)\<rparr> \<and>
              next_addr W' = Suc (next_addr W) \<and>
              heap W' (next_addr W) = Some \<lparr>freed = False, slots = elems W rhs\<rparr> \<and>
              (buffer_m (data_m (vecs W this)) = nullptr \<or>
               map_option freed (heap W' (buffer_m (data_m (vecs W this)))) = Some True) \<and>
              (\<forall>x. x \<noteq> next_addr W \<and> x \<noteq> buffer_m (data_m (vecs W this)) \<longrightarrow>
                   heap W' x = heap W x) \<and>
              elems W' this = elems W rhs \<and>
              vecs W' rhs = vecs W rhs \<and> elems W' rhs = elems W rhs)) \<and>
        (\<forall>j e. j < size_m (vecs W rhs) \<and> (\<forall>k<j. throw_plan T (ops W + k) = None) \<and>
                throw_plan T (ops W + j) = Some e \<longrightarrow>
           (\<exists>W'. Vector_assign_copy T this rhs W = Throw e W' \<and>
              vecs W' = vecs W \<and> elems W' this = elems W this \<and>
              heap W' (buffer_m (data_m (vecs W this))) =
                heap W (buffer_m (data_m (vecs W this)))))) \<and>
     (size_m (vecs W rhs) \<le> capacity_m (data_m (vecs W this)) \<longrightarrow>
        (\<forall>k. throw_plan T (ops W + k) = None) \<longrightarrow>
           (\<exists>W'. Vector_assign_copy T this rhs W = Ok () W' \<and>
              data_m (vecs W' this) = data_m (vecs W this) \<and>
              size_m (vecs W' this) = size_m (vecs W rhs) \<and>
              next_addr W' = next_addr W \<and>
              elems W' this = elems W rhs \<and>
              vecs W' rhs = vecs W rhs \<and> elems W' rhs = elems W rhs \<and>
              (\<forall>i<size_m (vecs W rhs).
                 slot_at W' (buffer_m (data_m (vecs W this)), i) = Some (elems W rhs ! i)) \<and>
              (capacity_m (data_m (vecs W this)) \<noteq> 0 \<longrightarrow>
                 (\<exists>blk. heap W' (buffer_m (data_m (vecs W this))) = Some blk \<and>
                    \<not> freed blk \<and>
                    length (slots blk) = capacity_m (data_m (vecs W this)))) \<and>
              (\<forall>x. x \<noteq> buffer_m (data_m (vecs W this)) \<longrightarrow> heap W' x = heap W x) \<and>
              (\<forall>i. size_m (vecs W rhs) \<le> i \<and> i < size_m (vecs W this) \<longrightarrow>
                 slot_at W' (buffer_m (data_m (vecs W this)), i) = Some Raw)))"
proof (intro conjI impI allI)
  assume gt: "capacity_m (data_m (vecs W this)) < size_m (vecs W rhs)"
    and np: "\<forall>k. throw_plan T (ops W + k) = None"
  from assign_copy_realloc_ok[OF assms gt np]
  obtain W' where r: "Vector_assign_copy T this rhs W = Ok () W'"
    and v: "vecs W' = (vecs W)(this :=
        \<lparr>data_m = \<lparr>buffer_m = next_addr W, capacity_m = size_m (vecs W rhs)\<rparr>,
         size_m = size_m (vecs W rhs)\<rparr>)"
    and h: "heap W' (next_addr W) = Some \<lparr>freed = False, slots = elems W rhs\<rparr>"
      "heap W' (buffer_m (data_m (vecs W rhs))) = heap W (buffer_m (data_m (vecs W rhs)))"
    and n: "next_addr W' = Suc (next_addr W)"
    and rel: "buffer_m (data_m (vecs W this)) = nullptr \<or>
       map_option freed (heap W' (buffer_m (data_m (vecs W this)))) = Some True"
    and frm: "\<forall>x. x \<noteq> next_addr W \<and> x \<noteq> buffer_m (data_m (vecs W this)) \<longrightarrow>
          heap W' x = heap W x"
    by blast
  have len: "length (elems W rhs) = size_m (vecs W rhs)"
    by (rule length_elems_wf[OF assms(3)])
  have "elems W' this = elems W rhs"
    using v h(1) len by (simp add: elems_def)
  moreover have "vecs W' rhs = vecs W rhs"
    using v assms(1) by simp
  then have "elems W' rhs = elems W rhs"
    using h(2) by (simp add: elems_def split: option.splits)
  ultimately show "\<exists>W'. Vector_assign_copy T this rhs W = Ok () W' \<and>
              vecs W' this =
                \<lparr>data_m = \<lparr>buffer_m = next_addr W, capacity_m = size_m (vecs W rhs)\<rparr>,
                 size_m = size_m (vecs W rhs)\<rparr> \<and>
              next_addr W' = Suc (next_addr W) \<and>
              heap W' (next_addr W) = Some \<lparr>freed = False, slots = elems W rhs\<rparr> \<and>
              (buffer_m (data_m (vecs W this)) = nullptr \<or>
               map_option freed (heap W' (buffer_m (data_m (vecs W this)))) = Some True) \<and>
              (\<forall>x. x \<noteq> next_addr W \<and> x \<noteq> buffer_m (data_m (vecs W this)) \<longrightarrow>
                   heap W' x = heap W x) \<and>
              elems W' this = elems W rhs \<and>
              vecs W' rhs = vecs W rhs \<and> elems W' rhs = elems W rhs"
    using r v n h(1) rel frm assms(1) by (intro exI[of _ W']) simp
next
  fix j e
  assume gt: "capacity_m (data_m (vecs W this)) < size_m (vecs W rhs)"
    and th: "j < size_m (vecs W rhs) \<and> (\<forall>k<j. throw_plan T (ops W + k) = None) \<and>
                throw_plan T (ops W + j) = Some e"
  from th assign_copy_realloc_throw[OF assms(1-3) gt, of j T e]
  obtain W' blk where r: "Vector_assign_copy T this rhs W = Throw e W'"
    and v: "vecs W' = vecs W" and h: "heap W' = (heap W)(next_addr W \<mapsto> blk)"
    and e: "elems W' this = elems W this"
    by blast
  have "buffer_m (data_m (vecs W this)) < next_addr W"
    using assms(2) by (auto simp: wf_vector_def Let_def nullptr_def split: if_splits)
  then have "heap W' (buffer_m (data_m (vecs W this))) = heap W (buffer_m (data_m (vecs W this)))"
    using h by simp
  then show "\<exists>W'. Vector_assign_copy T this rhs W = Throw e W' \<and>
              vecs W' = vecs W \<and> elems W' this = elems W this \<and>
              heap W' (buffer_m (data_m (vecs W this))) =
                heap W (buffer_m (data_m (vecs W this)))"
    using r v e by blast
next
  assume fits: "size_m (vecs W rhs) \<le> capacity_m (data_m (vecs W this))"
    and np: "\<forall>k. throw_plan T (ops W + k) = None"
  from assign_copy_in_place_ok[OF assms fits np]
  obtain W' where r: "Vector_assign_copy T this rhs W = Ok () W'"
    and v: "vecs W' = (vecs W)(this := (vecs W this)\<lparr>size_m := size_m (vecs W rhs)\<rparr>)"
    and n: "next_addr W' = next_addr W"
    and e: "elems W' this = elems W rhs"
    and fr: "\<forall>x. x \<noteq> buffer_m (data_m (vecs W this)) \<longrightarrow> heap W' x = heap W x"
    and raw: "\<forall>i. size_m (vecs W rhs) \<le> i \<and> i < size_m (vecs W this) \<longrightarrow>
          slot_at W' (buffer_m (data_m (vecs W this)), i) = Some Raw"
    and val: "\<forall>i<size_m (vecs W rhs).
          slot_at W' (buffer_m (data_m (vecs W this)), i) = Some (elems W rhs ! i)"
    and live: "capacity_m (data_m (vecs W this)) \<noteq> 0 \<longrightarrow>
        (\<exists>blk. heap W' (buffer_m (data_m (vecs W this))) = Some blk \<and> \<not> freed blk \<and>
           length (slots blk) = capacity_m (data_m (vecs W this)))"
    by blast
  have "elems W' rhs = elems W rhs"
  proof (cases "buffer_m (data_m (vecs W rhs)) = buffer_m (data_m (vecs W this))")
    case True
    then have "buffer_m (data_m (vecs W rhs)) = nullptr"
      using assms(4) by auto
    then have "size_m (vecs W rhs) = 0"
      using assms(3) by (auto simp: wf_vector_def Let_def)
    then show ?thesis
      using v assms(1) by (simp add: elems_size_0)
  next
    case False
    moreover have "vecs W' rhs = vecs W rhs"
      using v assms(1) by simp
    ultimately show ?thesis
      using fr by (simp add: elems_def split: option.splits)
  qed
  then show "\<exists>W'. Vector_assign_copy T this rhs W = Ok () W' \<and>
              data_m (vecs W' this) = data_m (vecs W this) \<and>
              size_m (vecs W' this) = size_m (vecs W rhs) \<and>
              next_addr W' = next_addr W \<and>
              elems W' this = elems W rhs \<and>
              vecs W' rhs = vecs W rhs \<and> elems W' rhs = elems W rhs \<and>
              (\<forall>i<size_m (vecs W rhs).
                 slot_at W' (buffer_m (data_m (vecs W this)), i) = Some (elems W rhs ! i)) \<and>
              (capacity_m (data_m (vecs W this)) \<noteq> 0 \<longrightarrow>
                 (\<exists>blk. heap W' (buffer_m (data_m (vecs W this))) = Some blk \<and>
                    \<not> freed blk \<and>
                    length (slots blk) = capacity_m (data_m (vecs W this)))) \<and>
              (\<forall>x. x \<noteq> buffer_m (data_m (vecs W this)) \<longrightarrow> heap W' x = heap W x) \<and>
              (\<forall>i. size_m (vecs W rhs) \<le> i \<and> i < size_m (vecs W this) \<longrightarrow>
                 slot_at W' (buffer_m (data_m (vecs W this)), i) = Some Raw)"
    using r v n e raw val live fr assms(1) by (intro exI[of _ W']) simp
qed

theorem copy_assignment_witness:
  "(0::nat) \<noteq> 1 \<and>
   wf_vector (two_vectors [Live 9] 1 [Live 1, Live 2, Live 3] 3) 0 \<and>
   wf_vector (two_vectors [Live 9] 1 [Live 1, Live 2, Live 3] 3) 1 \<and>
   (\<exists>W'. Vector_assign_copy int_type 0 1 (two_vectors [Live 9] 1 [Live 1, Live 2, Live 3] 3) =
            Ok () W' \<and>
      vecs W' 0 = \<lparr>data_m = \<lparr>buffer_m = 3, capacity_m = 3\<rparr>, size_m = 3\<rparr> \<and>
      heap W' 3 = Some \<lparr>freed = False, slots = [Live 1, Live 2, Live 3]\<rparr> \<and>
      elems W' 0 = [Live 1, Live 2, Live 3]) \<and>
   (\<exists>W'. Vector_assign_copy (throwing_type 1) 0 1
            (two_vectors [Live 9] 1 [Live 1, Live 2, Live 3] 3) = Throw StdException W' \<and>
      vecs W' = vecs (two_vectors [Live 9] 1 [Live 1, Live 2, Live 3] 3) \<and>
      elems W' 0 = [Live 9]) \<and>
   wf_vector (two_vectors [Live 7, Live 8, Live 9, Raw] 3 [Live 1, Live 2] 2) 0 \<and>
   wf_vector (two_vectors [Live 7, Live 8, Live 9, Raw] 3 [Live 1, Live 2] 2) 1 \<and>
   (\<exists>W'. Vector_assign_copy int_type 0 1
            (two_vectors [Live 7, Live 8, Live 9, Raw] 3 [Live 1, Live 2] 2) = Ok () W' \<and>
      vecs W' 0 = \<lparr>data_m = \<lparr>buffer_m = 1, capacity_m = 4\<rparr>, size_m = 2\<rparr> \<and>
      elems W' 0 = [Live 1, Live 2] \<and> slot_at W' (1, 0) = Some (Live 1) \<and>
      slot_at W' (1, 2) = Some Raw)"
proof -
  let ?A = "two_vectors [Live 9] 1 [Live 1, Live 2, Live 3] 3"
  let ?B = "two_vectors [Live 7, Live 8, Live 9, Raw] 3 [Live 1, Live 2] 2"
  have ne: "(0::nat) \<noteq> 1" by simp
  have wfA: "wf_vector ?A 0" "wf_vector ?A 1" and wfB: "wf_vector ?B 0" "wf_vector ?B 1"
    by (simp_all add: wf_two_vectors)
  have ownA: "buffer_m (data_m (vecs ?A 0)) \<noteq> buffer_m (data_m (vecs ?A 1)) \<or>
       buffer_m (data_m (vecs ?A 0)) = nullptr"
    and ownB: "buffer_m (data_m (vecs ?B 0)) \<noteq> buffer_m (data_m (vecs ?B 1)) \<or>
       buffer_m (data_m (vecs ?B 0)) = nullptr"
    by (simp_all add: two_vectors_simps)
  have npA: "\<forall>k. throw_plan int_type (ops ?A + k) = None"
    and npB: "\<forall>k. throw_plan int_type (ops ?B + k) = None"
    by (simp_all add: int_type_def)
  have thr: "1 < size_m (vecs ?A 1) \<and> (\<forall>k<1. throw_plan (throwing_type 1) (ops ?A + k) = None) \<and>
      throw_plan (throwing_type 1) (ops ?A + 1) = Some StdException"
    by (simp add: throwing_type_def two_vectors_simps)
  have gt: "capacity_m (data_m (vecs ?A 0)) < size_m (vecs ?A 1)"
    and fits: "size_m (vecs ?B 1) \<le> capacity_m (data_m (vecs ?B 0))"
    by (simp_all add: two_vectors_simps)
  have 1: "\<exists>W'. Vector_assign_copy int_type 0 1 ?A = Ok () W' \<and>
      vecs W' 0 = \<lparr>data_m = \<lparr>buffer_m = 3, capacity_m = 3\<rparr>, size_m = 3\<rparr> \<and>
      heap W' 3 = Some \<lparr>freed = False, slots = [Live 1, Live 2, Live 3]\<rparr> \<and>
      elems W' 0 = [Live 1, Live 2, Live 3]"
    using copy_assignment [OF ne wfA ownA, of int_type] gt npA
    by (auto simp add: two_vectors_simps elems_two_vectors)
  have 2: "\<exists>W'. Vector_assign_copy (throwing_type 1) 0 1 ?A = Throw StdException W' \<and>
      vecs W' = vecs ?A \<and> elems W' 0 = [Live 9]"
  proof -
    from copy_assignment [OF ne wfA ownA, of "throwing_type 1"] gt
    have "\<forall>j e. j < size_m (vecs ?A 1) \<and>
        (\<forall>k<j. throw_plan (throwing_type 1) (ops ?A + k) = None) \<and>
        throw_plan (throwing_type 1) (ops ?A + j) = Some e \<longrightarrow>
        (\<exists>W'. Vector_assign_copy (throwing_type 1) 0 1 ?A = Throw e W' \<and>
           vecs W' = vecs ?A \<and> elems W' 0 = elems ?A 0 \<and>
           heap W' (buffer_m (data_m (vecs ?A 0))) = heap ?A (buffer_m (data_m (vecs ?A 0))))"
      by blast
    with thr obtain W' where "Vector_assign_copy (throwing_type 1) 0 1 ?A = Throw StdException W'"
      "vecs W' = vecs ?A" "elems W' 0 = elems ?A 0"
      by blast
    then show ?thesis
      by (intro exI[of _ W']) (simp add: elems_two_vectors)
  qed
  have 3: "\<exists>W'. Vector_assign_copy int_type 0 1 ?B = Ok () W' \<and>
      vecs W' 0 = \<lparr>data_m = \<lparr>buffer_m = 1, capacity_m = 4\<rparr>, size_m = 2\<rparr> \<and>
      elems W' 0 = [Live 1, Live 2] \<and> slot_at W' (1, 0) = Some (Live 1) \<and>
      slot_at W' (1, 2) = Some Raw"
  proof -
    from copy_assignment [OF ne wfB ownB, of int_type] fits npB
    obtain W' where "Vector_assign_copy int_type 0 1 ?B = Ok () W'"
      "data_m (vecs W' 0) = data_m (vecs ?B 0)" "size_m (vecs W' 0) = size_m (vecs ?B 1)"
      "elems W' 0 = elems ?B 1"
      "\<forall>i<size_m (vecs ?B 1).
                 slot_at W' (buffer_m (data_m (vecs ?B 0)), i) = Some (elems ?B 1 ! i)"
      "\<forall>i. size_m (vecs ?B 1) \<le> i \<and> i < size_m (vecs ?B 0) \<longrightarrow>
                 slot_at W' (buffer_m (data_m (vecs ?B 0)), i) = Some Raw"
      by blast
    then show ?thesis
      by (intro exI[of _ W']) (simp add: two_vectors_simps elems_two_vectors Vector.equality)
  qed
  show ?thesis
    using ne wfA wfB 1 2 3 by blast
qed

end
